theory Spec2Isabelle
  imports Main
begin

text \<open>
  A shallow embedding of the BotRoulette helper templates: the rate limiter of the
  responder servers, the WebSocket tunnel client (\<^verbatim>\<open>generic-template/tunnel.js\<close>), and the
  file mailbox between the OpenClaw server and its bridge
  (\<^verbatim>\<open>openclaw-template/bridge.js\<close> and the \<^verbatim>\<open>server.js\<close> listing of the OpenClaw guide).
  The first part holds the definitions, the second the properties proved about them.
\<close>

chapter \<open>The embedding\<close>

section \<open>JavaScript values\<close>

text \<open>
  Every value the templates inspect comes out of \<^verbatim>\<open>JSON.parse\<close>, so a value is a JSON
  value; a missing property (\<^verbatim>\<open>undefined\<close>) is \<open>None\<close> of \<open>json option\<close>. A number is held as
  the text that \<^verbatim>\<open>String(n)\<close> gives for it (\<^verbatim>\<open>0\<close> for both zeros, \<^verbatim>\<open>1e+21\<close>, \<^verbatim>\<open>0.5\<close>,
  \<^verbatim>\<open>Infinity\<close> for a literal beyond the range of a double): the templates only print a
  number or test whether it is zero. A string is the list of its UTF-8 bytes; a surrogate
  without its partner, which a JavaScript string can hold, is the three bytes that encode
  its code point. An object is the list of its entries, each key once, in the order in
  which JavaScript enumerates them.
\<close>

datatype json =
    JNull
  | JBool bool
  | JNum string
  | JStr string
  | JArr "json list"
  | JObj "(string \<times> json) list"

text \<open>
  The text handed to \<^verbatim>\<open>JSON.parse\<close> (a WebSocket message, a mailbox file, the output of a
  child process): either text that \<^verbatim>\<open>JSON.parse\<close> rejects, or the serialization of a value,
  which is then represented by the value it parses to.
\<close>

datatype content = Text string | Json json

text \<open>Reading a property \<^verbatim>\<open>v.k\<close> of a value other than \<^verbatim>\<open>null\<close> (on which it throws).\<close>

fun property :: "string \<Rightarrow> json \<Rightarrow> json option" where
  "property k (JObj kvs) = map_of kvs k"
| "property k v = None"

text \<open>JavaScript truthiness, as used by \<^verbatim>\<open>||\<close>, \<^verbatim>\<open>!\<close> and \<^verbatim>\<open>if\<close>.\<close>

fun truthy :: "json option \<Rightarrow> bool" where
  "truthy None = False"
| "truthy (Some JNull) = False"
| "truthy (Some (JBool b)) = b"
| "truthy (Some (JNum n)) = (n \<noteq> ''0'')"
| "truthy (Some (JStr s)) = (s \<noteq> [])"
| "truthy (Some (JArr xs)) = True"
| "truthy (Some (JObj kvs)) = True"

text \<open>\<^verbatim>\<open>a || d\<close> for a default \<open>d\<close> that is a value.\<close>

fun js_or :: "json option \<Rightarrow> json \<Rightarrow> json" where
  "js_or None d = d"
| "js_or (Some v) d = (if truthy (Some v) then v else d)"

text \<open>Assignment \<^verbatim>\<open>obj[k] = v\<close> on an object held as its entries.\<close>

fun assign :: "'k \<Rightarrow> 'v \<Rightarrow> ('k \<times> 'v) list \<Rightarrow> ('k \<times> 'v) list" where
  "assign k v [] = [(k, v)]"
| "assign k v (e # es) = (if fst e = k then (k, v) # es else e # assign k v es)"

fun join :: "string \<Rightarrow> string list \<Rightarrow> string" where
  "join sep [] = []"
| "join sep [x] = x"
| "join sep (x # y # ys) = x @ sep @ join sep (y # ys)"

definition hex_char :: "nat \<Rightarrow> char" where
  "hex_char d = ''0123456789abcdef'' ! d"

text \<open>
  The escapes of \<^verbatim>\<open>JSON.stringify\<close>: the quote, the backslash, and the control characters
  below \<open>0x20\<close> (short forms for backspace, tab, line feed, form feed, carriage return).
\<close>

definition escape_char :: "char \<Rightarrow> string" where
  "escape_char c =
     (let n = (of_char c :: nat) in
      if n = 0x22 then [CHR 0x5C, CHR 0x22]
      else if n = 0x5C then [CHR 0x5C, CHR 0x5C]
      else if n = 0x08 then [CHR 0x5C, CHR ''b'']
      else if n = 0x09 then [CHR 0x5C, CHR ''t'']
      else if n = 0x0A then [CHR 0x5C, CHR ''n'']
      else if n = 0x0C then [CHR 0x5C, CHR ''f'']
      else if n = 0x0D then [CHR 0x5C, CHR ''r'']
      else if n < 0x20 then [CHR 0x5C, CHR ''u'', CHR ''0'', CHR ''0'', hex_char (n div 16), hex_char (n mod 16)]
      else [c])"

text \<open>
  A surrogate without its partner is written as \<^verbatim>\<open>\udXXX\<close>; its three bytes are \<open>0xED\<close>, a
  byte from \<open>0xA0\<close> on, and one more.
\<close>

fun escape :: "string \<Rightarrow> string" where
  "escape (c1 # c2 # c3 # cs) =
     (if c1 = CHR 0xED \<and> 0xA0 \<le> (of_char c2 :: nat)
      then (let v = (of_char c2 mod 64) * 64 + (of_char c3 mod 64 :: nat)
            in [CHR 0x5C, CHR ''u'', CHR ''d'', hex_char (v div 256), hex_char (v div 16 mod 16),
                hex_char (v mod 16)] @ escape cs)
      else escape_char c1 @ escape (c2 # c3 # cs))"
| "escape (c # cs) = escape_char c @ escape cs"
| "escape [] = []"

definition quote :: "string \<Rightarrow> string" where
  "quote s = [CHR 0x22] @ escape s @ [CHR 0x22]"

text \<open>\<^verbatim>\<open>JSON.stringify\<close>, which prints \<^verbatim>\<open>null\<close> for a number that is not finite.\<close>

fun stringify :: "json \<Rightarrow> string" where
  "stringify JNull = ''null''"
| "stringify (JBool b) = (if b then ''true'' else ''false'')"
| "stringify (JNum n) = (if n = ''Infinity'' \<or> n = ''-Infinity'' then ''null'' else n)"
| "stringify (JStr s) = quote s"
| "stringify (JArr xs) = ''['' @ join '','' (map stringify xs) @ '']''"
| "stringify (JObj kvs) =
     ''{'' @ join '','' (map (\<lambda>(k, v). quote k @ '':'' @ stringify v) kvs) @ ''}''"

text \<open>
  String conversion, as a template literal \<^verbatim>\<open>`${v}`\<close> performs it: an array joins its
  elements with commas (\<^verbatim>\<open>null\<close> as the empty string), any other object is
  \<^verbatim>\<open>[object Object]\<close>.
\<close>

fun to_str :: "json \<Rightarrow> string" where
  "to_str JNull = ''null''"
| "to_str (JBool b) = (if b then ''true'' else ''false'')"
| "to_str (JNum n) = n"
| "to_str (JStr s) = s"
| "to_str (JArr xs) = join '','' (map (\<lambda>x. if x = JNull then [] else to_str x) xs)"
| "to_str (JObj kvs) = ''[object Object]''"


text \<open>\<^verbatim>\<open>toLowerCase\<close> on the ASCII letters, which is all a header name can hold.\<close>

definition lower_char :: "char \<Rightarrow> char" where
  "lower_char c =
     (case map_of (zip ''ABCDEFGHIJKLMNOPQRSTUVWXYZ'' ''abcdefghijklmnopqrstuvwxyz'') c of
        None \<Rightarrow> c
      | Some l \<Rightarrow> l)"

definition toLowerCase :: "string \<Rightarrow> string" where
  "toLowerCase s = map lower_char s"

text \<open>
  The operations on strings that count in UTF-16 code units. A byte that continues a
  character (\<open>0x80\<close> to \<open>0xBF\<close>) adds no unit, a byte that opens a character of four bytes
  (\<open>0xF0\<close> and above) stands for a surrogate pair, any other byte for one unit.
\<close>

definition units :: "char \<Rightarrow> nat" where
  "units c =
     (let b = (of_char c :: nat)
      in if 0x80 \<le> b \<and> b < 0xC0 then 0 else if b < 0xF0 then 1 else 2)"

text \<open>\<^verbatim>\<open>s.length\<close>.\<close>

definition js_length :: "string \<Rightarrow> nat" where
  "js_length s = sum_list (map units s)"








section \<open>Responder servers: the per-address rate limiter\<close>

text \<open>
  \<^verbatim>\<open>generic-template/server.js\<close> and \<^verbatim>\<open>openclaw-template/server_http_api.js\<close>
  (and the mailbox server of the OpenClaw guide) share one function:
  \<^verbatim>\<open>
  const hits = {};
  function rateLimit(ip) {
    const now = Date.now();
    if (!hits[ip]) hits[ip] = [];
    hits[ip] = hits[ip].filter(t => now - t < 60000);
    if (hits[ip].length >= 30) return true;
    hits[ip].push(now);
    return false;
  }
  \<close>
  The module-level object \<open>hits\<close> is a map from the caller's address to an array of
  millisecond timestamps; \<open>Date.now()\<close> is an argument of the model. The function returns
  its verdict together with the updated object.
\<close>

type_synonym hits = "string \<rightharpoonup> int list"

definition window :: "hits \<Rightarrow> string \<Rightarrow> int list" where
  "window h ip = (case h ip of None \<Rightarrow> [] | Some ts \<Rightarrow> ts)"

definition rateLimit :: "string \<Rightarrow> int \<Rightarrow> hits \<Rightarrow> bool \<times> hits" where
  "rateLimit ip now h =
     (let h1 = (case h ip of None \<Rightarrow> h(ip \<mapsto> []) | Some _ \<Rightarrow> h);
          kept = filter (\<lambda>t. now - t < 60000) (window h1 ip);
          h2 = h1(ip \<mapsto> kept)
      in if 30 \<le> length kept then (True, h2)
         else (False, h2(ip \<mapsto> kept @ [now])))"

text \<open>
  \<open>handleChat\<close> calls \<open>rateLimit(req.ip)\<close> first and answers 429 when it returns true.
  \<open>serve\<close> replays a sequence of requests (address, arrival time) against the empty
  object the module starts with, and logs the requests that were let through.
\<close>

definition serve_step ::
  "hits \<times> (string \<times> int) list \<Rightarrow> string \<times> int \<Rightarrow> hits \<times> (string \<times> int) list" where
  "serve_step s c =
     (case rateLimit (fst c) (snd c) (fst s) of
        (limited, h') \<Rightarrow> (h', if limited then snd s else snd s @ [c]))"

definition serve :: "(string \<times> int) list \<Rightarrow> hits \<times> (string \<times> int) list" where
  "serve calls = foldl serve_step (Map.empty, []) calls"

definition accepted_by :: "string \<Rightarrow> (string \<times> int) list \<Rightarrow> int list" where
  "accepted_by ip log = map snd (filter (\<lambda>c. fst c = ip) log)"

definition recent :: "int \<Rightarrow> int list \<Rightarrow> int list" where
  "recent now ts = filter (\<lambda>t. now - t < 60000) ts"

section \<open>The tunnel client\<close>

text \<open>
  \<^verbatim>\<open>generic-template/tunnel.js\<close> is event-driven: it registers callbacks on a WebSocket,
  on two timers and on each local HTTP request, and the Node.js event loop calls them.
  The model keeps the script's three globals (\<^verbatim>\<open>ws\<close>, \<^verbatim>\<open>pingInterval\<close>,
  \<^verbatim>\<open>reconnectDelay\<close>) in a record, together with what the runtime holds for it: the state
  of the current socket, the live timers, the local requests in flight, and a log of the
  frames handed to \<^verbatim>\<open>ws.send\<close>. Each callback is a function on that record; an event is
  a call of one callback by the runtime at a time in milliseconds.
\<close>

datatype ready_state = CONNECTING | OPEN | CLOSING | CLOSED

text \<open>A header value: a string, a number (\<^verbatim>\<open>Content-Length\<close>), or an array (\<^verbatim>\<open>set-cookie\<close>).\<close>

datatype hval = HStr string | HNum nat | HArr "string list"

text \<open>The objects passed to \<^verbatim>\<open>ws.send(JSON.stringify(...))\<close>, by their \<^verbatim>\<open>type\<close>.\<close>

datatype frame =
    Auth (api_key: string)
  | Ping
  | Response (resp_id: "json option") (resp_status: nat)
      (resp_headers: "(string \<times> string) list") (resp_body: string)

text \<open>
  A local request made by \<^verbatim>\<open>http.request\<close>: the options as \<open>handleRequest\<close> passes them
  (Node.js sends the method in upper case), the body written, whether
  \<^verbatim>\<open>req.destroy()\<close> was called, the \<^verbatim>\<open>id\<close> its three callbacks close over, and the time
  at which the timeout set by \<^verbatim>\<open>req.setTimeout(25000, ...)\<close> falls due. \<open>ended\<close> and \<open>failed\<close>
  are kept by the runtime: the response's \<^verbatim>\<open>end\<close> event, or the request's \<^verbatim>\<open>error\<close> event,
  has been emitted.
\<close>

record local_request =
  rid :: "json option"
  hostname :: string
  port :: hval
  path :: json
  http_method :: json
  req_headers :: "(string \<times> hval) list"
  written :: string
  destroyed :: bool
  timeout_due :: nat
  ended :: bool
  failed :: bool

record config =
  API_KEY :: string
  LOCAL_PORT :: hval

record tunnel =
  clock :: nat
  exited :: bool
  ws :: nat
  readyState :: ready_state
  sent :: "(nat \<times> nat \<times> frame) list"
  intervals :: "(nat \<times> nat) list"
  pingInterval :: "nat option"
  timeouts :: "nat list"
  handles :: nat
  reconnectDelay :: nat
  retries :: "nat list"
  reqs :: "local_request list"

text \<open>
  \<open>ws\<close> counts the WebSocket objects created so far, the global \<^verbatim>\<open>ws\<close> being the latest;
  \<open>readyState\<close> is that socket's state. \<open>sent\<close> logs each \<^verbatim>\<open>ws.send\<close> with its time and
  the socket it went to. \<open>intervals\<close> holds the live \<^verbatim>\<open>setInterval\<close> timers (handle, next
  due time), \<open>timeouts\<close> the due times of the pending \<^verbatim>\<open>setTimeout(connect, d)\<close>, and
  \<open>retries\<close> logs every delay \<open>d\<close> so passed. \<open>exited\<close> is set when a callback throws: no
  handler for uncaught exceptions is installed, so the process ends.
\<close>

definition boot :: tunnel where
  "boot = \<lparr> clock = 0, exited = False, ws = 0, readyState = CLOSED, sent = [],
            intervals = [], pingInterval = None, timeouts = [], handles = 0,
            reconnectDelay = 1000, retries = [], reqs = [] \<rparr>"

text \<open>\<^verbatim>\<open>ws.send\<close> on the current socket, which every call site reaches only when it is open.\<close>

definition ws_send :: "frame \<Rightarrow> tunnel \<Rightarrow> tunnel" where
  "ws_send f s = s\<lparr> sent := sent s @ [(clock s, ws s, f)] \<rparr>"

definition clearInterval :: "nat option \<Rightarrow> tunnel \<Rightarrow> tunnel" where
  "clearInterval t s =
     (case t of None \<Rightarrow> s
      | Some h \<Rightarrow> s\<lparr> intervals := filter (\<lambda>e. fst e \<noteq> h) (intervals s) \<rparr>)"

text \<open>\<^verbatim>\<open>connect()\<close>: a new socket replaces the global; its callbacks are those below.\<close>

definition connect :: "tunnel \<Rightarrow> tunnel" where
  "connect s = s\<lparr> ws := Suc (ws s), readyState := CONNECTING \<rparr>"

text \<open>
  \<^verbatim>\<open>
  ws.on('open', () => {
    ws.send(JSON.stringify({ type: 'auth', api_key: API_KEY }));
    reconnectDelay = 1000;
    pingInterval = setInterval(() => {
      if (ws.readyState === WebSocket.OPEN)
        ws.send(JSON.stringify({ type: 'ping' }));
    }, 25000);
  });
  \<close>
\<close>

definition on_open :: "config \<Rightarrow> tunnel \<Rightarrow> tunnel" where
  "on_open cfg s =
     (let s1 = ws_send (Auth (API_KEY cfg)) s;
          s2 = s1\<lparr> reconnectDelay := 1000 \<rparr>
      in s2\<lparr> intervals := intervals s2 @ [(handles s2, clock s2 + 25000)],
              pingInterval := Some (handles s2),
              handles := Suc (handles s2) \<rparr>)"

definition ping_callback :: "tunnel \<Rightarrow> tunnel" where
  "ping_callback s = (if readyState s = OPEN then ws_send Ping s else s)"

text \<open>An interval timer that has fired is due again one period later.\<close>

definition rearm :: "nat \<Rightarrow> tunnel \<Rightarrow> tunnel" where
  "rearm h s =
     s\<lparr> intervals := map (\<lambda>e. if fst e = h then (h, snd e + 25000) else e) (intervals s) \<rparr>"

text \<open>
  \<^verbatim>\<open>
  ws.on('close', () => {
    clearInterval(pingInterval);
    setTimeout(connect, reconnectDelay);
    reconnectDelay = Math.min(reconnectDelay * 2, 30000);
  });
  \<close>
\<close>

definition on_close :: "tunnel \<Rightarrow> tunnel" where
  "on_close s =
     (let s1 = clearInterval (pingInterval s) s;
          s2 = s1\<lparr> timeouts := timeouts s1 @ [clock s1 + reconnectDelay s1],
                    retries := retries s1 @ [reconnectDelay s1] \<rparr>
      in s2\<lparr> reconnectDelay := min (reconnectDelay s2 * 2) 30000 \<rparr>)"

text \<open>
  \<^verbatim>\<open>
  function handleRequest(msg) {
    const { id, method, path, body } = msg;
    let bodyStr = (body == null) ? ''
      : (typeof body === 'string') ? body : JSON.stringify(body);
    const fwdHeaders = { 'Content-Type': 'application/json' };
    if (bodyStr) fwdHeaders['Content-Length'] = Buffer.byteLength(bodyStr);
    const req = http.request({
      hostname: '127.0.0.1', port: LOCAL_PORT,
      path: path || '/', method: method || 'POST',
      headers: fwdHeaders
    }, (res) => { ... });
    req.on('error', () => { ... });
    req.setTimeout(25000, () => { ... });
    if (bodyStr) req.write(bodyStr);
    req.end();
  }
  \<close>
  \<^verbatim>\<open>http.request\<close> checks its options before it makes the call, and throws when a check
  fails: a \<^verbatim>\<open>method\<close> that is neither \<^verbatim>\<open>null\<close> nor a string, or a string with a character
  that is not one of an HTTP token (\<^verbatim>\<open>ERR_INVALID_ARG_TYPE\<close>, \<^verbatim>\<open>ERR_INVALID_HTTP_TOKEN\<close>);
  a \<^verbatim>\<open>path\<close> whose string conversion has a character outside U+0021 to U+00FF
  (\<^verbatim>\<open>ERR_UNESCAPED_CHARACTERS\<close>), which in UTF-8 is a byte below \<open>0x21\<close> or from \<open>0xC4\<close> on.
  The host, the port taken from the environment and the two headers are the script's
  own and pass. \<open>handleRequest\<close> is called from the \<^verbatim>\<open>message\<close> callback with nothing to
  catch the exception, so the process ends and no call is made.
\<close>

definition token_char :: "char \<Rightarrow> bool" where
  "token_char c \<longleftrightarrow>
     c \<in> set (''abcdefghijklmnopqrstuvwxyzABCDEFGHIJKLMNOPQRSTUVWXYZ0123456789'' @
              ''!#$%&*+-.^_|~'' @ [CHR 0x27, CHR 0x60])"

definition valid_method :: "json \<Rightarrow> bool" where
  "valid_method m =
     (case m of
        JNull \<Rightarrow> True
      | JStr v \<Rightarrow> list_all token_char v
      | _ \<Rightarrow> False)"

definition path_char :: "char \<Rightarrow> bool" where
  "path_char c \<longleftrightarrow> 0x21 \<le> (of_char c :: nat) \<and> (of_char c :: nat) < 0xC4"

definition valid_path :: "json \<Rightarrow> bool" where
  "valid_path p = (if truthy (Some p) then list_all path_char (to_str p) else True)"

definition accepted :: "local_request \<Rightarrow> bool" where
  "accepted r \<longleftrightarrow> valid_path (path r) \<and> valid_method (http_method r)"

definition bodyStr :: "json option \<Rightarrow> string" where
  "bodyStr body =
     (case body of
        None \<Rightarrow> []
      | Some JNull \<Rightarrow> []
      | Some (JStr b) \<Rightarrow> b
      | Some v \<Rightarrow> stringify v)"

definition fwdHeaders :: "string \<Rightarrow> (string \<times> hval) list" where
  "fwdHeaders b =
     (let h = [(''Content-Type'', HStr ''application/json'')]
      in if b \<noteq> [] then assign ''Content-Length'' (HNum (length b)) h else h)"

text \<open>The request that \<open>handleRequest\<close> sets up at time \<open>t\<close> for the frame \<open>msg\<close>.\<close>

definition http_request :: "config \<Rightarrow> nat \<Rightarrow> json \<Rightarrow> local_request" where
  "http_request cfg t msg =
     (let b = bodyStr (property ''body'' msg)
      in \<lparr> rid = property ''id'' msg,
           hostname = ''127.0.0.1'',
           port = LOCAL_PORT cfg,
           path = js_or (property ''path'' msg) (JStr ''/''),
           http_method = js_or (property ''method'' msg) (JStr ''POST''),
           req_headers = fwdHeaders b,
           written = (if b \<noteq> [] then b else []),
           destroyed = False,
           timeout_due = t + 25000,
           ended = False,
           failed = False \<rparr>)"

definition handleRequest :: "config \<Rightarrow> json \<Rightarrow> tunnel \<Rightarrow> tunnel" where
  "handleRequest cfg msg s =
     (if accepted (http_request cfg (clock s) msg)
      then s\<lparr> reqs := reqs s @ [http_request cfg (clock s) msg] \<rparr>
      else s\<lparr> exited := True \<rparr>)"

text \<open>
  The callback of the response's \<^verbatim>\<open>end\<close> event, for the request with handle \<open>h\<close>, the
  status code, the headers and the body of the local response:
  \<^verbatim>\<open>
  const skip = new Set([
    'content-length', 'transfer-encoding', 'connection',
    'keep-alive', 'etag', 'x-powered-by'
  ]);
  const respHeaders = {};
  for (const [k, v] of Object.entries(res.headers)) {
    if (typeof v === 'string' && !skip.has(k.toLowerCase()))
      respHeaders[k] = v;
  }
  if (ws.readyState === WebSocket.OPEN) {
    ws.send(JSON.stringify({
      type: 'response', id,
      status: res.statusCode,
      headers: respHeaders, body: data
    }));
  }
  \<close>
\<close>

definition skip :: "string list" where
  "skip = [''content-length'', ''transfer-encoding'', ''connection'',
           ''keep-alive'', ''etag'', ''x-powered-by'']"

definition keep_header :: "(string \<times> string) list \<Rightarrow> string \<times> hval \<Rightarrow> (string \<times> string) list" where
  "keep_header acc kv =
     (case snd kv of
        HStr v \<Rightarrow> if toLowerCase (fst kv) \<notin> set skip then assign (fst kv) v acc else acc
      | HNum n \<Rightarrow> acc
      | HArr vs \<Rightarrow> acc)"

definition respHeaders :: "(string \<times> hval) list \<Rightarrow> (string \<times> string) list" where
  "respHeaders hs = foldl keep_header [] hs"

definition on_local_end ::
  "nat \<Rightarrow> nat \<Rightarrow> (string \<times> hval) list \<Rightarrow> string \<Rightarrow> tunnel \<Rightarrow> tunnel" where
  "on_local_end h code hs data s =
     (if readyState s = OPEN
      then ws_send (Response (rid (reqs s ! h)) code (respHeaders hs) data) s
      else s)"

text \<open>
  \<^verbatim>\<open>
  req.on('error', () => {
    if (ws.readyState === WebSocket.OPEN)
      ws.send(JSON.stringify({
        type: 'response', id, status: 502,
        headers: { 'content-type': 'application/json' },
        body: JSON.stringify({ error: 'local server unreachable' })
      }));
  });
  req.setTimeout(25000, () => {
    req.destroy();
    if (ws.readyState === WebSocket.OPEN)
      ws.send(JSON.stringify({
        type: 'response', id, status: 504,
        headers: { 'content-type': 'application/json' },
        body: JSON.stringify({ error: 'timeout' })
      }));
  });
  \<close>
\<close>

definition error_frame :: "json option \<Rightarrow> nat \<Rightarrow> string \<Rightarrow> frame" where
  "error_frame i code reason =
     Response i code [(''content-type'', ''application/json'')]
       (stringify (JObj [(''error'', JStr reason)]))"

definition on_local_error :: "nat \<Rightarrow> tunnel \<Rightarrow> tunnel" where
  "on_local_error h s =
     (if readyState s = OPEN
      then ws_send (error_frame (rid (reqs s ! h)) 502 ''local server unreachable'') s
      else s)"

definition destroy :: "nat \<Rightarrow> tunnel \<Rightarrow> tunnel" where
  "destroy h s = s\<lparr> reqs := (reqs s)[h := (reqs s ! h)\<lparr> destroyed := True \<rparr>] \<rparr>"

definition on_local_timeout :: "nat \<Rightarrow> tunnel \<Rightarrow> tunnel" where
  "on_local_timeout h s =
     (let s1 = destroy h s
      in if readyState s1 = OPEN
         then ws_send (error_frame (rid (reqs s1 ! h)) 504 ''timeout'') s1
         else s1)"

text \<open>
  \<^verbatim>\<open>
  ws.on('message', (data) => {
    let msg;
    try { msg = JSON.parse(data.toString()); } catch { return; }
    if (msg.type === 'auth_ok') {
      console.log(`[tunnel] live: ${msg.tunnel_url}`);
    } else if (msg.type === 'request') {
      handleRequest(msg);
    } else if (msg.type === 'error') {
      console.error('[tunnel] error:', msg.message);
    }
  });
  \<close>
  Reading \<^verbatim>\<open>msg.type\<close> throws when the message is the JSON text \<^verbatim>\<open>null\<close>, and
  \<open>handleRequest\<close> throws when \<^verbatim>\<open>http.request\<close> does.
\<close>

definition on_message :: "config \<Rightarrow> content \<Rightarrow> tunnel \<Rightarrow> tunnel" where
  "on_message cfg data s =
     (case data of
        Text _ \<Rightarrow> s
      | Json msg \<Rightarrow>
          if msg = JNull then s\<lparr> exited := True \<rparr>
          else if property ''type'' msg = Some (JStr ''auth_ok'') then s
          else if property ''type'' msg = Some (JStr ''request'') then handleRequest cfg msg s
          else s)"

subsection \<open>The event loop\<close>

text \<open>
  What the runtime can do to the client: the socket's \<^verbatim>\<open>open\<close>, \<^verbatim>\<open>message\<close> and \<^verbatim>\<open>close\<close>
  events (\<open>WsClosing\<close> is the peer's close frame, after which the socket is closing and
  not yet closed), the two timers falling due, and the three callbacks of a local
  request, named by its position \<open>h\<close> in \<open>reqs\<close>. The socket's events follow the life of a
  WebSocket (\<^verbatim>\<open>open\<close> once while connecting, messages while open, \<^verbatim>\<open>close\<close> once); a timer
  fires at its due time and no event overtakes a timer that is due.

  A local request follows the life of a Node.js request. While it waits for its response
  the response can end, or the request can fail, or its timeout can fall due. The socket
  of the local call is taken to be idle from the moment the request is made until its
  response has ended, so the timeout falls due 25000 ms after the request; it is a timer
  like the others. No event follows \<^verbatim>\<open>end\<close> or \<^verbatim>\<open>error\<close>. After the timeout callback has
  called \<^verbatim>\<open>req.destroy()\<close> on a request that has no response yet, Node.js emits \<^verbatim>\<open>error\<close>
  on it (a socket hang-up).
\<close>

datatype event =
    WsOpen
  | WsMessage content
  | WsClosing
  | WsClose
  | ConnectDue
  | PingDue nat
  | LocalEnd nat nat "(string \<times> hval) list" string
  | LocalError nat
  | LocalTimeout nat

definition waiting :: "local_request \<Rightarrow> bool" where
  "waiting r \<longleftrightarrow> \<not> destroyed r \<and> \<not> ended r \<and> \<not> failed r"

fun possible :: "event \<Rightarrow> nat \<Rightarrow> tunnel \<Rightarrow> bool" where
  "possible WsOpen t s = (readyState s = CONNECTING)"
| "possible (WsMessage data) t s = (readyState s = OPEN)"
| "possible WsClosing t s = (readyState s = OPEN)"
| "possible WsClose t s = (readyState s \<noteq> CLOSED)"
| "possible ConnectDue t s = (t \<in> set (timeouts s))"
| "possible (PingDue h) t s = ((h, t) \<in> set (intervals s))"
| "possible (LocalEnd h code hs data) t s = (h < length (reqs s) \<and> waiting (reqs s ! h))"
| "possible (LocalError h) t s =
     (h < length (reqs s) \<and> \<not> ended (reqs s ! h) \<and> \<not> failed (reqs s ! h))"
| "possible (LocalTimeout h) t s =
     (h < length (reqs s) \<and> waiting (reqs s ! h) \<and> t = timeout_due (reqs s ! h))"

definition due_times :: "tunnel \<Rightarrow> nat list" where
  "due_times s = map snd (intervals s) @ timeouts s @ map timeout_due (filter waiting (reqs s))"

text \<open>The runtime's note that it has emitted an event on the request \<open>h\<close>.\<close>

definition emitted :: "nat \<Rightarrow> (local_request \<Rightarrow> local_request) \<Rightarrow> tunnel \<Rightarrow> tunnel" where
  "emitted h f s = s\<lparr> reqs := (reqs s)[h := f (reqs s ! h)] \<rparr>"

definition enabled :: "nat \<times> event \<Rightarrow> tunnel \<Rightarrow> bool" where
  "enabled te s =
     (\<not> exited s \<and> clock s \<le> fst te \<and> list_all (\<lambda>d. fst te \<le> d) (due_times s)
      \<and> possible (snd te) (fst te) s)"

fun dispatch :: "config \<Rightarrow> event \<Rightarrow> tunnel \<Rightarrow> tunnel" where
  "dispatch cfg WsOpen s = on_open cfg (s\<lparr> readyState := OPEN \<rparr>)"
| "dispatch cfg (WsMessage data) s = on_message cfg data s"
| "dispatch cfg WsClosing s = s\<lparr> readyState := CLOSING \<rparr>"
| "dispatch cfg WsClose s = on_close (s\<lparr> readyState := CLOSED \<rparr>)"
| "dispatch cfg ConnectDue s = connect (s\<lparr> timeouts := remove1 (clock s) (timeouts s) \<rparr>)"
| "dispatch cfg (PingDue h) s = rearm h (ping_callback s)"
| "dispatch cfg (LocalEnd h code hs data) s =
     emitted h (\<lambda>r. r\<lparr> ended := True \<rparr>) (on_local_end h code hs data s)"
| "dispatch cfg (LocalError h) s = emitted h (\<lambda>r. r\<lparr> failed := True \<rparr>) (on_local_error h s)"
| "dispatch cfg (LocalTimeout h) s = on_local_timeout h s"

definition step :: "config \<Rightarrow> nat \<times> event \<Rightarrow> tunnel \<Rightarrow> tunnel option" where
  "step cfg te s =
     (if enabled te s then Some (dispatch cfg (snd te) (s\<lparr> clock := fst te \<rparr>)) else None)"

fun exec :: "config \<Rightarrow> (nat \<times> event) list \<Rightarrow> tunnel \<Rightarrow> tunnel option" where
  "exec cfg [] s = Some s"
| "exec cfg (te # es) s =
     (case step cfg te s of None \<Rightarrow> None | Some s' \<Rightarrow> exec cfg es s')"

text \<open>
  The script itself: it exits at once without an API key, and otherwise calls
  \<^verbatim>\<open>connect()\<close>. \<open>run\<close> is the client after a sequence of events, \<open>None\<close> when the
  sequence is not one the runtime can produce.
\<close>

definition start :: "config \<Rightarrow> tunnel option" where
  "start cfg = (if API_KEY cfg = [] then None else Some (connect boot))"

definition run :: "config \<Rightarrow> (nat \<times> event) list \<Rightarrow> tunnel option" where
  "run cfg es = (case start cfg of None \<Rightarrow> None | Some s \<Rightarrow> exec cfg es s)"

text \<open>The frames sent on socket \<open>k\<close>, and the response frames among a log's entries.\<close>

definition frames_on :: "nat \<Rightarrow> tunnel \<Rightarrow> (nat \<times> frame) list" where
  "frames_on k s = map (\<lambda>e. (fst e, snd (snd e))) (filter (\<lambda>e. fst (snd e) = k) (sent s))"

definition responses_to :: "json option \<Rightarrow> tunnel \<Rightarrow> frame list" where
  "responses_to i s =
     filter (\<lambda>f. case f of Response j code hs b \<Rightarrow> j = i | _ \<Rightarrow> False) (map (\<lambda>e. snd (snd e)) (sent s))"

definition headers_of :: "frame \<Rightarrow> (string \<times> string) list" where
  "headers_of f = (case f of Response i code hs b \<Rightarrow> hs | Auth k \<Rightarrow> [] | Ping \<Rightarrow> [])"

text \<open>Two header names are equal up to case.\<close>

definition ci_equal :: "string \<Rightarrow> string \<Rightarrow> bool" where
  "ci_equal a b \<longleftrightarrow> toLowerCase a = toLowerCase b"

section \<open>The file mailbox\<close>

text \<open>
  The OpenClaw guide's \<^verbatim>\<open>server.js\<close> (the forwarder) and
  \<^verbatim>\<open>openclaw-template/bridge.js\<close> (the worker) are two processes that share the
  directories \<^verbatim>\<open>inbox\<close> and \<^verbatim>\<open>outbox\<close>. A directory is the list of its files, name and
  content; the file calls are \<^verbatim>\<open>readFileSync\<close> (\<open>map_of\<close>), \<^verbatim>\<open>writeFileSync\<close> (\<open>assign\<close>),
  \<^verbatim>\<open>unlinkSync\<close> (\<open>unlink\<close>) and \<^verbatim>\<open>readdirSync\<close> (the names). Identifiers hold no path
  separator, so \<^verbatim>\<open>path.join(DIR, `${id}.json`)\<close> is the file \<open>id @ ''.json''\<close> of \<open>DIR\<close>.
\<close>

record mailbox =
  inbox :: "(string \<times> content) list"
  outbox :: "(string \<times> content) list"

definition unlink :: "string \<Rightarrow> (string \<times> content) list \<Rightarrow> (string \<times> content) list" where
  "unlink name dir = filter (\<lambda>e. fst e \<noteq> name) dir"

definition json_file :: "string \<Rightarrow> string" where
  "json_file i = i @ ''.json''"


subsection \<open>The worker\<close>

text \<open>
  \<^verbatim>\<open>
  let reply = 'something went sideways. try again.';
  try {
    const parsed = JSON.parse(result);
    if (parsed.result?.payloads?.[0])
      reply = parsed.result.payloads[0].text;
  } catch {
    reply = result.trim().substring(0, 1000);
  }
  \<close>
  \<open>result\<close> is the output of \<^verbatim>\<open>openclaw agent\<close>. On the output \<^verbatim>\<open>null\<close> the property
  read throws and the text itself becomes the reply.
\<close>

text \<open>
  Optional chaining \<^verbatim>\<open>v?.k\<close> and \<^verbatim>\<open>v?.[0]\<close>; the element 0 of a string is its first code
  unit.
\<close>

definition opt_property :: "string \<Rightarrow> json option \<Rightarrow> json option" where
  "opt_property k v =
     (case v of None \<Rightarrow> None | Some JNull \<Rightarrow> None | Some x \<Rightarrow> property k x)"










subsection \<open>The forwarder\<close>

text \<open>An HTTP reply: the status code and the object sent as JSON.\<close>

datatype reply = Reply nat json

record chat_request =
  req_ip :: string
  req_body :: "json option"
  session_header :: "string option"

definition response_obj :: "json option \<Rightarrow> json" where
  "response_obj r = JObj (case r of None \<Rightarrow> [] | Some v \<Rightarrow> [(''response'', v)])"

definition fallback :: reply where
  "fallback =
     Reply 200 (JObj [(''response'', JStr ''still thinking on that one. try again in a moment.'')])"

text \<open>
  The body of the polling loop, once the deadline test has passed:
  \<^verbatim>\<open>
  if (fs.existsSync(outboxFile)) {
    try {
      const data = JSON.parse(fs.readFileSync(outboxFile, 'utf8'));
      fs.unlinkSync(outboxFile);
      res.setHeader('Content-Type', 'application/json');
      return res.end(JSON.stringify({ response: data.reply }));
    } catch (e) { break; }
  }
  await new Promise(r => setTimeout(r, 500));
  \<close>
  The loop returns the reply, or breaks (the file does not parse, or holds \<^verbatim>\<open>null\<close>, on
  which \<^verbatim>\<open>data.reply\<close> throws after the file is gone), or sleeps.
\<close>

datatype poll = Delivered reply | Gave_up | Waiting

definition poll_outbox :: "string \<Rightarrow> mailbox \<Rightarrow> poll \<times> mailbox" where
  "poll_outbox i mb =
     (case map_of (outbox mb) (json_file i) of
        None \<Rightarrow> (Waiting, mb)
      | Some (Text raw) \<Rightarrow> (Gave_up, mb)
      | Some (Json data) \<Rightarrow>
          (let mb' = mb\<lparr> outbox := unlink (json_file i) (outbox mb) \<rparr>
           in if data = JNull then (Gave_up, mb')
              else (Delivered (Reply 200 (response_obj (property ''reply'' data))), mb')))"

text \<open>
  \<^verbatim>\<open>
  const deadline = Date.now() + 25000;
  while (Date.now() < deadline) { ... }
  res.end(JSON.stringify({ response: 'still thinking on that one. try again in a moment.' }));
  \<close>
  The forwarder does not run alone. The schedule lists, for each evaluation of the loop
  condition, the value of \<^verbatim>\<open>Date.now()\<close> and what the other processes did to the mailbox
  since the forwarder last ran. The result is \<open>None\<close> when the schedule ends while the
  loop is still running.
\<close>

type_synonym schedule = "(nat \<times> (mailbox \<Rightarrow> mailbox)) list"

fun wait_reply :: "string \<Rightarrow> nat \<Rightarrow> schedule \<Rightarrow> mailbox \<Rightarrow> (reply \<times> mailbox) option" where
  "wait_reply i deadline [] mb = None"
| "wait_reply i deadline (slot # sched) mb =
     (let mb1 = snd slot mb in
      if fst slot < deadline then
        (case poll_outbox i mb1 of
           (Delivered r, mb2) \<Rightarrow> Some (r, mb2)
         | (Gave_up, mb2) \<Rightarrow> Some (fallback, mb2)
         | (Waiting, mb2) \<Rightarrow> wait_reply i deadline sched mb2)
      else Some (fallback, mb1))"

text \<open>
  \<^verbatim>\<open>
  async function handleChat(req, res) {
    if (rateLimit(req.ip)) { ... return res.status(429).end(JSON.stringify({ error: 'rate limited' })); }
    const { message } = req.body || {};
    if (!message || typeof message !== 'string') { ... 400 ... }
    if (message.length > 5000) { ... 400 ... }
    const sessionId = req.body.session_id || req.headers['x-kpath-session-id'] || 'default';
    const id = Date.now().toString(36) + Math.random().toString(36).slice(2, 6);
    fs.writeFileSync(path.join(INBOX_DIR, `${id}.json`), JSON.stringify({
      id, sessionId, message, timestamp: new Date().toISOString() }));
    ...
  }
  \<close>
  \<open>t0\<close> is the value of \<^verbatim>\<open>Date.now()\<close> in \<^verbatim>\<open>rateLimit\<close> and \<open>t1\<close> its value when the
  deadline is set; the identifier \<open>i\<close> and the timestamp \<open>ts\<close> come from the clock and the
  random generator.
\<close>

definition sessionId :: "chat_request \<Rightarrow> json" where
  "sessionId req =
     js_or (opt_property ''session_id'' (req_body req))
       (case session_header req of
          None \<Rightarrow> JStr ''default''
        | Some v \<Rightarrow> if v \<noteq> [] then JStr v else JStr ''default'')"

definition entry :: "string \<Rightarrow> json \<Rightarrow> string \<Rightarrow> string \<Rightarrow> json" where
  "entry i sid m ts =
     JObj [(''id'', JStr i), (''sessionId'', sid), (''message'', JStr m), (''timestamp'', JStr ts)]"

definition enqueue :: "string \<Rightarrow> json \<Rightarrow> string \<Rightarrow> string \<Rightarrow> mailbox \<Rightarrow> mailbox" where
  "enqueue i sid m ts mb =
     mb\<lparr> inbox := assign (json_file i) (Json (entry i sid m ts)) (inbox mb) \<rparr>"

definition handleChat ::
  "chat_request \<Rightarrow> nat \<Rightarrow> nat \<Rightarrow> string \<Rightarrow> string \<Rightarrow> schedule \<Rightarrow> hits \<times> mailbox
     \<Rightarrow> (reply \<times> hits \<times> mailbox) option" where
  "handleChat req t0 t1 i ts sched st =
     (case rateLimit (req_ip req) (int t0) (fst st) of
        (limited, h) \<Rightarrow>
          if limited then Some (Reply 429 (JObj [(''error'', JStr ''rate limited'')]), h, snd st)
          else (case (if truthy (req_body req) then opt_property ''message'' (req_body req) else None) of
                  Some (JStr m) \<Rightarrow>
                    if m = [] then
                      Some (Reply 400 (JObj [(''error'', JStr ''missing or invalid message field'')]),
                            h, snd st)
                    else if 5000 < js_length m then
                      Some (Reply 400 (JObj [(''error'', JStr ''message too long'')]), h, snd st)
                    else (case wait_reply i (t1 + 25000) sched
                                 (enqueue i (sessionId req) m ts (snd st)) of
                            None \<Rightarrow> None
                          | Some (r, mb) \<Rightarrow> Some (r, h, mb))
                | _ \<Rightarrow>
                    Some (Reply 400 (JObj [(''error'', JStr ''missing or invalid message field'')]),
                          h, snd st)))"

text \<open>
  The mailbox states the other processes leave behind at each slot of a schedule, were
  the forwarder to change nothing; and whether the completed entry of \<open>i\<close> is there and
  parses.
\<close>

fun seen :: "schedule \<Rightarrow> mailbox \<Rightarrow> (nat \<times> mailbox) list" where
  "seen [] mb = []"
| "seen (slot # sched) mb = (fst slot, snd slot mb) # seen sched (snd slot mb)"

definition completed :: "string \<Rightarrow> mailbox \<Rightarrow> bool" where
  "completed i mb =
     (case map_of (outbox mb) (json_file i) of
        None \<Rightarrow> False
      | Some (Text raw) \<Rightarrow> False
      | Some (Json data) \<Rightarrow> True)"



section \<open>Invariants\<close>

text \<open>
  The predicates the proofs carry along a run of the tunnel client: the bounds on the
  reconnect delay; the state of the heartbeat, where \<open>beating\<close> says that the socket
  opened at \<open>t0\<close> has sent its \<open>n\<close> pings on time and holds one live interval; the
  absence of stripped header names in the frames sent; \<open>retired\<close>, a socket that has
  closed; and \<open>call_inv\<close>, the state of the local call \<open>h\<close> made for a frame with the
  identifier \<open>i\<close> received on the socket \<open>k\<close>, whose timeout falls due at \<open>d\<close>.
\<close>

definition backoff_inv :: "tunnel \<Rightarrow> bool" where
  "backoff_inv s \<longleftrightarrow> 1000 \<le> reconnectDelay s \<and> reconnectDelay s \<le> 30000
     \<and> (\<forall>d\<in>set (retries s). 1000 \<le> d \<and> d \<le> 30000)
     \<and> (readyState s = OPEN \<or> readyState s = CLOSING \<longrightarrow> reconnectDelay s = 1000)"

definition clean_inv :: "tunnel \<Rightarrow> bool" where
  "clean_inv s \<longleftrightarrow>
     (\<forall>e\<in>set (sent s). \<forall>kv\<in>set (headers_of (snd (snd e))). toLowerCase (fst kv) \<notin> set skip)"

definition beating :: "config \<Rightarrow> tunnel \<Rightarrow> nat \<Rightarrow> nat \<Rightarrow> nat \<Rightarrow> bool" where
  "beating cfg s h t0 n \<longleftrightarrow>
     intervals s = [(h, t0 + 25000 * Suc n)] \<and> pingInterval s = Some h
     \<and> t0 \<le> clock s \<and> clock s \<le> t0 + 25000 * Suc n
     \<and> (t0, ws s, Auth (API_KEY cfg)) \<in> set (sent s)
     \<and> (\<forall>k. 1 \<le> k \<and> k \<le> n \<longrightarrow> (t0 + 25000 * k, ws s, Ping) \<in> set (sent s))"

definition hb_inv :: "config \<Rightarrow> tunnel \<Rightarrow> bool" where
  "hb_inv cfg s \<longleftrightarrow>
     (readyState s \<noteq> CLOSED \<longrightarrow> timeouts s = []) \<and> length (timeouts s) \<le> 1 \<and>
     (case readyState s of
        OPEN \<Rightarrow> \<exists>h t0 n. beating cfg s h t0 n
      | CLOSING \<Rightarrow> \<exists>h d. intervals s = [(h, d)] \<and> pingInterval s = Some h
      | CONNECTING \<Rightarrow> intervals s = []
      | CLOSED \<Rightarrow> intervals s = [])"

definition retired :: "nat \<Rightarrow> tunnel \<Rightarrow> bool" where
  "retired k s \<longleftrightarrow> (ws s = k \<and> readyState s = CLOSED) \<or> k < ws s"



chapter \<open>Properties\<close>

section \<open>The rate limiter\<close>

lemma rateLimit_verdict:
  "fst (rateLimit ip now h) = (30 \<le> length (recent now (window h ip)))"
  by (simp add: rateLimit_def window_def recent_def Let_def split: option.splits)

lemma rateLimit_window:
  "window (snd (rateLimit ip now h)) ip =
     (if 30 \<le> length (recent now (window h ip)) then recent now (window h ip)
      else recent now (window h ip) @ [now])"
  by (simp add: rateLimit_def window_def recent_def Let_def split: option.splits)

lemma rateLimit_other:
  "ip' \<noteq> ip \<Longrightarrow> window (snd (rateLimit ip now h)) ip' = window h ip'"
  by (simp add: rateLimit_def window_def Let_def split: option.splits)

lemma recent_recent: "m \<le> now \<Longrightarrow> recent now (recent m ts) = recent now ts"
  by (induction ts) (auto simp: recent_def)

lemma recent_snoc: "recent now (ts @ [now]) = recent now ts @ [now]"
  by (simp add: recent_def)

lemma accepted_by_snoc:
  "accepted_by ip (log @ [c]) = (if fst c = ip then accepted_by ip log @ [snd c] else accepted_by ip log)"
  by (simp add: accepted_by_def)

lemma recent_all: "length xs \<le> length (recent now xs) \<Longrightarrow> recent now xs = xs"
  unfolding recent_def
  by (metis (lifting) filter_True length_filter_less not_less)

lemma rateLimit_rejected_same:
  assumes "length (window h ip) \<le> 30" "fst (rateLimit ip now h)"
  shows "snd (rateLimit ip now h) = h"
proof -
  from assms have r: "recent now (window h ip) = window h ip"
    by (intro recent_all) (simp add: rateLimit_verdict)
  obtain ts where ts: "h ip = Some ts"
    using assms(2) by (cases "h ip") (auto simp: rateLimit_verdict window_def recent_def)
  with r have "recent now ts = ts" by (simp add: window_def)
  with ts assms(2) show ?thesis
    by (auto simp: rateLimit_def window_def recent_def Let_def fun_upd_idem)
qed

lemma serve_snoc: "serve (cs @ [c]) = serve_step (serve cs) c"
  by (simp add: serve_def)

lemma serve_bounded: "length (window (fst (serve cs)) ip) \<le> 30"
proof (induction cs rule: rev_induct)
  case Nil
  show ?case by (simp add: serve_def window_def)
next
  case (snoc c cs)
  have le: "length (recent (snd c) (window (fst (serve cs)) (fst c))) \<le> length (window (fst (serve cs)) (fst c))"
    by (simp add: recent_def)
  show ?case
  proof (cases "ip = fst c")
    case True
    with snoc[of ] le show ?thesis
      using rateLimit_window[of "fst c" "snd c" "fst (serve cs)"]
      by (auto simp: serve_snoc serve_step_def split: prod.splits)
  next
    case False
    with snoc show ?thesis
      using rateLimit_other[of ip "fst c" "snd c" "fst (serve cs)"]
      by (auto simp: serve_snoc serve_step_def split: prod.splits)
  qed
qed

lemma serve_window:
  "sorted (map snd cs) \<Longrightarrow> \<forall>c\<in>set cs. snd c \<le> n \<Longrightarrow>
   \<exists>m\<le>n. window (fst (serve cs)) ip = recent m (accepted_by ip (snd (serve cs)))"
proof (induction cs arbitrary: n rule: rev_induct)
  case Nil
  show ?case by (auto simp: serve_def window_def recent_def accepted_by_def)
next
  case (snoc c cs)
  obtain limited h' where rl: "rateLimit (fst c) (snd c) (fst (serve cs)) = (limited, h')"
    by (cases "rateLimit (fst c) (snd c) (fst (serve cs))")
  have sv: "serve (cs @ [c]) = (h', if limited then snd (serve cs) else snd (serve cs) @ [c])"
    by (simp add: serve_snoc serve_step_def rl)
  from snoc.prems have s: "sorted (map snd cs)" and b: "\<forall>d\<in>set cs. snd d \<le> snd c" and cn: "snd c \<le> n"
    by (auto simp: sorted_append)
  from snoc.IH[OF s b] obtain m where m: "m \<le> snd c"
    "window (fst (serve cs)) ip = recent m (accepted_by ip (snd (serve cs)))" by blast
  show ?case
  proof (cases "ip = fst c")
    case True
    have lim: "limited = (30 \<le> length (recent (snd c) (window (fst (serve cs)) ip)))"
      using rateLimit_verdict[of "fst c" "snd c" "fst (serve cs)"] rl True by simp
    have w: "window h' ip = (if limited then recent (snd c) (window (fst (serve cs)) ip)
                else recent (snd c) (window (fst (serve cs)) ip) @ [snd c])"
      using rateLimit_window[of "fst c" "snd c" "fst (serve cs)"] rl True lim by simp
    have "window h' ip = recent (snd c) (accepted_by ip (snd (serve (cs @ [c]))))"
      using w m True by (simp add: sv recent_recent accepted_by_snoc recent_snoc)
    with cn show ?thesis by (auto simp: sv)
  next
    case False
    have "window h' ip = window (fst (serve cs)) ip"
      using rateLimit_other[of ip "fst c" "snd c" "fst (serve cs)"] rl False by simp
    with m cn False show ?thesis
      by (intro exI[of _ m]) (auto simp: sv accepted_by_def)
  qed
qed


text \<open>
  Claim C10. Replay any sequence of requests whose arrival times do not decrease, and let
  one more request arrive from \<open>ip\<close> at time \<open>now\<close>. The call \<open>rateLimit(ip)\<close> first prunes
  from the window of \<open>ip\<close> every timestamp that is 60000 ms old or older; it returns true
  exactly when at least 30 timestamps remain, and then records nothing; otherwise it
  appends \<open>now\<close> and returns false. A rejected call leaves the whole \<open>hits\<close> object as it
  was, and the caller is limited if and only if 30 or more of its requests were let
  through in the trailing 60 seconds.
\<close>

theorem rateLimit_sliding_window:
  fixes calls :: "(string \<times> int) list"
  assumes "sorted (map snd (calls @ [(ip, now)]))"
  defines "h \<equiv> fst (serve calls)" and "log \<equiv> snd (serve calls)"
  shows "(\<forall>t \<in> set (window (snd (rateLimit ip now h)) ip). now - t < 60000)
       \<and> fst (rateLimit ip now h) = (30 \<le> length (recent now (window h ip)))
       \<and> window (snd (rateLimit ip now h)) ip =
           (if fst (rateLimit ip now h) then recent now (window h ip)
            else recent now (window h ip) @ [now])
       \<and> (fst (rateLimit ip now h) \<longrightarrow> snd (rateLimit ip now h) = h)
       \<and> fst (rateLimit ip now h) = (30 \<le> length (recent now (accepted_by ip log)))"
proof -
  from assms(1) have s: "sorted (map snd calls)" and b: "\<forall>c\<in>set calls. snd c \<le> now"
    by (auto simp: sorted_append)
  from serve_window[OF s b, of ip] obtain m where m: "m \<le> now"
    "window h ip = recent m (accepted_by ip log)" unfolding h_def log_def by blast
  have eq: "recent now (window h ip) = recent now (accepted_by ip log)"
    using m by (simp add: recent_recent)
  have "\<forall>t \<in> set (window (snd (rateLimit ip now h)) ip). now - t < 60000"
    by (auto simp: rateLimit_window recent_def)
  moreover have "fst (rateLimit ip now h) \<longrightarrow> snd (rateLimit ip now h) = h"
    using rateLimit_rejected_same[of h ip now] serve_bounded[of calls ip] by (simp add: h_def)
  ultimately show ?thesis
    using eq by (simp add: rateLimit_verdict rateLimit_window)
qed

theorem rateLimit_sliding_window_witness:
  "sorted (map snd (map (\<lambda>i. (''10.0.0.7'', int i)) [0..<30] @ [(''10.0.0.7'', 59999)]))
   \<and> fst (rateLimit ''10.0.0.7'' 59999 (fst (serve (map (\<lambda>i. (''10.0.0.7'', int i)) [0..<30]))))
   \<and> snd (rateLimit ''10.0.0.7'' 59999 (fst (serve (map (\<lambda>i. (''10.0.0.7'', int i)) [0..<30]))))
       = fst (serve (map (\<lambda>i. (''10.0.0.7'', int i)) [0..<30]))"
proof -
  have s: "sorted (map snd (map (\<lambda>i. (''10.0.0.7'', int i)) [0..<30] @ [(''10.0.0.7'', 59999)]))"
    by code_simp
  have a: "30 \<le> length (recent 59999 (accepted_by ''10.0.0.7''
             (snd (serve (map (\<lambda>i. (''10.0.0.7'', int i)) [0..<30])))))"
    by code_simp
  from rateLimit_sliding_window[OF s] a s show ?thesis by blast
qed

section \<open>The tunnel client\<close>

lemmas handler_defs = on_open_def on_close_def on_message_def handleRequest_def
  on_local_end_def on_local_error_def on_local_timeout_def destroy_def emitted_def
  ping_callback_def rearm_def connect_def clearInterval_def ws_send_def

lemma exec_append:
  "exec cfg (es @ es') s = (case exec cfg es s of None \<Rightarrow> None | Some s' \<Rightarrow> exec cfg es' s')"
  by (induction es arbitrary: s) (auto split: option.splits)

lemma run_append:
  "run cfg (es @ es') = (case run cfg es of None \<Rightarrow> None | Some s \<Rightarrow> exec cfg es' s)"
  by (simp add: run_def exec_append split: option.splits)

lemma exec_invariant:
  assumes "\<And>te s s'. P s \<Longrightarrow> step cfg te s = Some s' \<Longrightarrow> P s'"
  shows "exec cfg es s = Some s' \<Longrightarrow> P s \<Longrightarrow> P s'"
proof (induction es arbitrary: s)
  case Nil
  then show ?case by simp
next
  case (Cons te es)
  then show ?case using assms by (auto split: option.splits)
qed

lemma run_invariant:
  assumes "P (connect boot)"
    and "\<And>te s s'. P s \<Longrightarrow> step cfg te s = Some s' \<Longrightarrow> P s'"
    and "run cfg es = Some s"
  shows "P s"
  using assms(3) exec_invariant[of P cfg es "connect boot" s, OF assms(2)] assms(1)
  by (auto simp: run_def start_def split: if_splits)

lemma step_SomeD:
  "step cfg te s = Some s' \<Longrightarrow>
     enabled te s \<and> s' = dispatch cfg (snd te) (s\<lparr> clock := fst te \<rparr>)"
  by (auto simp: step_def split: if_splits)

lemma backoff_inv_step:
  assumes "backoff_inv s" "step cfg te s = Some s'"
  shows "backoff_inv s'"
proof -
  from step_SomeD[OF assms(2)] have en: "enabled te s"
    and s': "s' = dispatch cfg (snd te) (s\<lparr> clock := fst te \<rparr>)" by auto
  show ?thesis
  proof (cases "snd te")
    case (WsMessage data)
    with assms(1) en show ?thesis unfolding s'
      by (cases data) (auto simp: backoff_inv_def enabled_def handler_defs)
  qed (use assms(1) en in \<open>auto simp: s' backoff_inv_def enabled_def handler_defs Let_def split: option.splits\<close>)
qed

lemma backoff_inv_run: "run cfg es = Some s \<Longrightarrow> backoff_inv s"
  by (rule run_invariant[where P = backoff_inv, OF _ backoff_inv_step])
     (auto simp: backoff_inv_def connect_def boot_def)

lemma min_double: "min (min (2 * d) c * 2 ^ k) c = min (d * 2 ^ Suc k) (c::nat)"
proof (cases "2 * d \<le> c")
  case True
  then show ?thesis by (simp add: min_absorb1 mult.assoc mult.left_commute mult.commute)
next
  case False
  then have c: "c \<le> 2 * d" by simp
  have a: "c \<le> c * 2 ^ k" by simp
  have "2 * d \<le> 2 * d * 2 ^ k" by simp
  with c have "c \<le> 2 * d * 2 ^ k" by (rule order_trans)
  also have "2 * d * 2 ^ k = d * 2 ^ Suc k" by simp
  finally have b: "c \<le> d * 2 ^ Suc k" .
  from False have m: "min (2 * d) c = c" by simp
  from a have l: "min (c * 2 ^ k) c = c" by (rule min_absorb2)
  from b have r: "min (d * 2 ^ Suc k) c = c" by (rule min_absorb2)
  show ?thesis unfolding m l r ..
qed

lemma backoff_sequence:
  assumes "exec cfg es s = Some s'" "\<forall>e\<in>set es. snd e \<noteq> WsOpen" "reconnectDelay s \<le> 30000"
  shows "retries s' = retries s @
           map (\<lambda>k. min (reconnectDelay s * 2 ^ k) 30000) [0..<length (filter (\<lambda>e. snd e = WsClose) es)]
       \<and> reconnectDelay s' = min (reconnectDelay s * 2 ^ length (filter (\<lambda>e. snd e = WsClose) es)) 30000"
  using assms
proof (induction es arbitrary: s)
  case Nil
  then show ?case by simp
next
  case (Cons te es)
  from Cons.prems(1) obtain s1 where st: "step cfg te s = Some s1" and ex: "exec cfg es s1 = Some s'"
    by (auto split: option.splits)
  from step_SomeD[OF st] have s1: "s1 = dispatch cfg (snd te) (s\<lparr> clock := fst te \<rparr>)" by simp
  from Cons.prems(2) have no: "\<forall>e\<in>set es. snd e \<noteq> WsOpen" and te: "snd te \<noteq> WsOpen" by auto
  show ?case
  proof (cases "snd te = WsClose")
    case True
    have r1: "retries s1 = retries s @ [reconnectDelay s]"
      and d1: "reconnectDelay s1 = min (2 * reconnectDelay s) 30000"
      using True by (auto simp: s1 handler_defs Let_def mult.commute split: option.splits)
    have le: "reconnectDelay s1 \<le> 30000" by (simp add: d1)
    from Cons.IH[OF ex no le] Cons.prems(3) True show ?thesis
      by (simp add: r1 d1 min_double map_upt_Suc del: upt_Suc power_Suc)
  next
    case False
    have r1: "retries s1 = retries s" and d1: "reconnectDelay s1 = reconnectDelay s"
      using False te
      by (cases "snd te"; auto simp: s1 handler_defs Let_def split: content.splits)+
    from Cons.IH[OF ex no] Cons.prems(3) False show ?thesis
      by (simp add: r1 d1)
  qed
qed

lemmas request_defs = http_request_def bodyStr_def fwdHeaders_def accepted_def valid_path_def
  valid_method_def path_char_def token_char_def

lemmas trace_simps = run_def start_def step_def enabled_def due_times_def waiting_def boot_def
  handler_defs request_defs error_frame_def Let_def

lemma run_Nil: "API_KEY cfg \<noteq> [] \<Longrightarrow> run cfg [] = Some (connect boot)"
  by (simp add: run_def start_def)

lemma run_snoc_SomeD:
  assumes "run cfg (es @ [te]) = Some s"
  obtains s0 where "run cfg es = Some s0" "step cfg te s0 = Some s"
  using assms by (auto simp: run_append split: option.splits)

lemma run_start_nonempty: "run cfg es = Some s \<Longrightarrow> API_KEY cfg \<noteq> []"
  by (auto simp: run_def start_def split: if_splits)

lemma delay_after_open:
  assumes "run cfg es = Some s" "es = [] \<or> snd (last es) = WsOpen"
  shows "reconnectDelay s = 1000"
proof (cases "es = []")
  case True
  with assms(1) show ?thesis
    by (auto simp: run_def start_def connect_def boot_def split: if_splits)
next
  case False
  then obtain es0 te where es: "es = es0 @ [te]" by (metis rev_exhaust)
  with assms(2) have te: "snd te = WsOpen" by simp
  from assms(1) obtain s0 where "step cfg te s0 = Some s"
    unfolding es by (rule run_snoc_SomeD)
  from step_SomeD[OF this] te show ?thesis
    by (simp add: handler_defs Let_def)
qed

text \<open>
  Claim C3. Take the client at its start or right after an \<open>open\<close> event, and let any
  events follow among which no socket opens. The delays passed to
  \<open>setTimeout(connect, \<cdot>)\<close> by the successive \<open>close\<close> events are then 1000, 2000, 4000, ...,
  each the double of the one before, capped at 30000: the \<open>k\<close>-th is
  \<open>min (1000 * 2 ^ k) 30000\<close>, and no delay ever exceeds 30000 ms.
\<close>

theorem reconnect_backoff:
  assumes "run cfg es = Some s" and "es = [] \<or> snd (last es) = WsOpen"
    and "exec cfg es' s = Some s'" and "\<forall>e\<in>set es'. snd e \<noteq> WsOpen"
  shows "retries s' = retries s @
           map (\<lambda>k. min (1000 * 2 ^ k) 30000) [0..<length (filter (\<lambda>e. snd e = WsClose) es')]
       \<and> reconnectDelay s' = min (1000 * 2 ^ length (filter (\<lambda>e. snd e = WsClose) es')) 30000
       \<and> (\<forall>d\<in>set (retries s'). d \<le> 30000)"
proof -
  have d: "reconnectDelay s = 1000" using assms(1,2) by (rule delay_after_open)
  have "run cfg (es @ es') = Some s'" using assms(1,3) by (simp add: run_append)
  then have "backoff_inv s'" by (rule backoff_inv_run)
  then have "\<forall>d\<in>set (retries s'). d \<le> 30000" by (simp add: backoff_inv_def)
  moreover from backoff_sequence[OF assms(3,4)] d
  have "retries s' = retries s @
           map (\<lambda>k. min (1000 * 2 ^ k) 30000) [0..<length (filter (\<lambda>e. snd e = WsClose) es')]
       \<and> reconnectDelay s' = min (1000 * 2 ^ length (filter (\<lambda>e. snd e = WsClose) es')) 30000"
    by simp
  ultimately show ?thesis by blast
qed

theorem reconnect_backoff_witness:
  "map_option retries (run \<lparr> API_KEY = ''kp_live_1'', LOCAL_PORT = HNum 8900 \<rparr>
     [(5, WsClose), (1005, ConnectDue), (1006, WsClose), (3006, ConnectDue), (3007, WsClose),
      (7007, ConnectDue), (7008, WsClose), (15008, ConnectDue), (15009, WsClose),
      (31009, ConnectDue), (31010, WsClose), (61010, ConnectDue), (61011, WsClose)])
   = Some [1000, 2000, 4000, 8000, 16000, 30000, 30000]"
proof -
  let ?cfg = "\<lparr> API_KEY = ''kp_live_1'', LOCAL_PORT = HNum 8900 \<rparr>"
  let ?tr = "[(5, WsClose), (1005, ConnectDue), (1006, WsClose), (3006, ConnectDue), (3007, WsClose),
      (7007, ConnectDue), (7008, WsClose), (15008, ConnectDue), (15009, WsClose),
      (31009, ConnectDue), (31010, WsClose), (61010, ConnectDue), (61011, WsClose)]"
  have r0: "run ?cfg [] = Some (connect boot)" by (simp add: run_Nil)
  have "exec ?cfg ?tr (connect boot) \<noteq> None" by (simp add: trace_simps)
  then obtain s' where ex: "exec ?cfg ?tr (connect boot) = Some s'" by blast
  have no: "\<forall>e\<in>set ?tr. snd e \<noteq> WsOpen" by simp
  have "retries s' = [1000, 2000, 4000, 8000, 16000, 30000, 30000]"
  proof -
    have n: "length (filter (\<lambda>e. snd e = WsClose) ?tr) = 7" by simp
    have m: "map (\<lambda>k. min (1000 * 2 ^ k) 30000) [0..<7] = [1000, 2000, 4000, 8000, 16000, 30000, 30000::nat]"
      by (simp add: upt_conv_Cons)
    have z: "retries (connect boot) = []" by (simp add: connect_def boot_def)
    from reconnect_backoff[OF r0 _ ex no] show ?thesis unfolding n m z by simp
  qed
  moreover have "run ?cfg ?tr = Some s'" using ex by (simp add: run_def start_def)
  ultimately show ?thesis by simp
qed

text \<open>
  Claim C4. Whenever an \<open>auth_ok\<close> frame has been received, the reconnect delay is at its
  floor of 1000 ms. The assignment is made by the \<open>open\<close> callback of the same socket, and
  nothing changes the delay between \<open>open\<close> and \<open>close\<close>.
\<close>

theorem auth_ok_backoff_floor:
  assumes "run cfg (es @ [(t, WsMessage (Json msg))]) = Some s"
    and "property ''type'' msg = Some (JStr ''auth_ok'')"
  shows "reconnectDelay s = 1000"
proof -
  from assms(1) obtain s0 where r: "run cfg es = Some s0"
    and st: "step cfg (t, WsMessage (Json msg)) s0 = Some s" by (rule run_snoc_SomeD)
  from step_SomeD[OF st] have "readyState s0 = OPEN" and "reconnectDelay s = reconnectDelay s0"
    using assms(2) by (auto simp: enabled_def handler_defs)
  with backoff_inv_run[OF r] show ?thesis by (simp add: backoff_inv_def)
qed

theorem auth_ok_backoff_floor_witness:
  "property ''type'' (JObj [(''type'', JStr ''auth_ok''), (''tunnel_url'', JStr ''https://x.example'')])
     = Some (JStr ''auth_ok'')
   \<and> map_option reconnectDelay (run \<lparr> API_KEY = ''kp_live_1'', LOCAL_PORT = HNum 8900 \<rparr>
       ([(5, WsClose), (1005, ConnectDue), (1010, WsOpen)] @
        [(1020, WsMessage (Json (JObj [(''type'', JStr ''auth_ok''),
            (''tunnel_url'', JStr ''https://x.example'')])))])) = Some 1000"
proof -
  let ?cfg = "\<lparr> API_KEY = ''kp_live_1'', LOCAL_PORT = HNum 8900 \<rparr>"
  let ?msg = "JObj [(''type'', JStr ''auth_ok''), (''tunnel_url'', JStr ''https://x.example'')]"
  let ?tr = "[(5, WsClose), (1005, ConnectDue), (1010, WsOpen)] @ [(1020, WsMessage (Json ?msg))]"
  have ty: "property ''type'' ?msg = Some (JStr ''auth_ok'')" by simp
  have "run ?cfg ?tr \<noteq> None" by (simp add: trace_simps)
  then obtain s where r: "run ?cfg ?tr = Some s" by blast
  from auth_ok_backoff_floor[OF r ty] r ty show ?thesis by simp
qed



text \<open>
  Two frames that \<^verbatim>\<open>http.request\<close> rejects, a path with a space and a method that is a
  number: the process ends and no call has been made.
\<close>

lemma rejected_options_end_process:
  "map_option (\<lambda>s. (exited s, reqs s))
     (run \<lparr> API_KEY = ''kp_live_1'', LOCAL_PORT = HNum 8900 \<rparr>
        [(10, WsOpen), (20, WsMessage (Json (JObj [(''type'', JStr ''request''), (''id'', JStr ''r1''),
            (''path'', JStr ''/a b'')])))]) = Some (True, [])"
  "map_option (\<lambda>s. (exited s, reqs s))
     (run \<lparr> API_KEY = ''kp_live_1'', LOCAL_PORT = HNum 8900 \<rparr>
        [(10, WsOpen), (20, WsMessage (Json (JObj [(''type'', JStr ''request''), (''id'', JStr ''r1''),
            (''method'', JNum ''123'')])))]) = Some (True, [])"
  by (simp_all add: trace_simps)

subsection \<open>Response headers\<close>

lemma skip_lower: "n \<in> set skip \<Longrightarrow> toLowerCase n = n"
  by (auto simp: skip_def toLowerCase_def lower_char_def)

lemma skipped_iff: "(\<exists>n\<in>set skip. ci_equal k n) \<longleftrightarrow> toLowerCase k \<in> set skip"
  using skip_lower by (auto simp: ci_equal_def)

lemma assign_keys: "fst ` set (assign k v al) = insert k (fst ` set al)"
  by (induction al) auto

lemma map_of_assign: "map_of (assign k v al) = (map_of al)(k \<mapsto> v)"
  by (induction al) (auto simp: fun_eq_iff)

lemma keep_header_clean:
  "\<forall>kv\<in>set acc. toLowerCase (fst kv) \<notin> set skip \<Longrightarrow>
   \<forall>kv\<in>set (keep_header acc e). toLowerCase (fst kv) \<notin> set skip"
proof (cases "snd e")
  case (HStr v)
  assume a: "\<forall>kv\<in>set acc. toLowerCase (fst kv) \<notin> set skip"
  show ?thesis
  proof (cases "toLowerCase (fst e) \<in> set skip")
    case True
    with a HStr show ?thesis by (simp add: keep_header_def)
  next
    case False
    have "fst ` set (assign (fst e) v acc) = insert (fst e) (fst ` set acc)"
      by (rule assign_keys)
    with a False have "\<forall>k\<in>fst ` set (assign (fst e) v acc). toLowerCase k \<notin> set skip"
      by auto
    with HStr False show ?thesis by (auto simp: keep_header_def)
  qed
qed (simp_all add: keep_header_def)

lemma foldl_keep_header_clean:
  "\<forall>kv\<in>set acc. toLowerCase (fst kv) \<notin> set skip \<Longrightarrow>
   \<forall>kv\<in>set (foldl keep_header acc hs). toLowerCase (fst kv) \<notin> set skip"
proof (induction hs arbitrary: acc)
  case Nil
  then show ?case by simp
next
  case (Cons e hs)
  from Cons.prems have "\<forall>kv\<in>set (keep_header acc e). toLowerCase (fst kv) \<notin> set skip"
    by (rule keep_header_clean)
  then show ?case using Cons.IH by simp
qed

lemma respHeaders_clean: "kv \<in> set (respHeaders hs) \<Longrightarrow> toLowerCase (fst kv) \<notin> set skip"
  using foldl_keep_header_clean[of "[]" hs] by (simp add: respHeaders_def)

lemma map_of_keep_header:
  "map_of (keep_header acc e) k =
     (case snd e of
        HStr v \<Rightarrow> if k = fst e \<and> toLowerCase k \<notin> set skip then Some v else map_of acc k
      | HNum n \<Rightarrow> map_of acc k
      | HArr vs \<Rightarrow> map_of acc k)"
  by (auto simp: keep_header_def map_of_assign split: hval.splits)

lemma map_of_foldl_keep_header:
  "distinct (map fst hs) \<Longrightarrow>
   map_of (foldl keep_header acc hs) k =
     (case map_of hs k of
        Some (HStr v) \<Rightarrow> if toLowerCase k \<in> set skip then map_of acc k else Some v
      | Some (HNum n) \<Rightarrow> map_of acc k
      | Some (HArr vs) \<Rightarrow> map_of acc k
      | None \<Rightarrow> map_of acc k)"
proof (induction hs arbitrary: acc)
  case Nil
  then show ?case by simp
next
  case (Cons e hs)
  from Cons.prems have d: "distinct (map fst hs)" and n: "fst e \<notin> fst ` set hs" by auto
  from n have none: "map_of hs (fst e) = None" by (simp add: map_of_eq_None_iff)
  show ?case
  proof (cases "k = fst e")
    case True
    with none Cons.IH[OF d, of "keep_header acc e"] show ?thesis
      by (cases e) (auto simp: map_of_keep_header split: hval.splits)
  next
    case False
    with Cons.IH[OF d, of "keep_header acc e"] show ?thesis
      by (cases e) (auto simp: map_of_keep_header split: hval.splits option.splits)
  qed
qed

lemma map_of_respHeaders:
  "distinct (map fst hs) \<Longrightarrow>
   map_of (respHeaders hs) k =
     (case map_of hs k of
        Some (HStr v) \<Rightarrow> if (\<exists>n\<in>set skip. ci_equal k n) then None else Some v
      | Some (HNum n) \<Rightarrow> None
      | Some (HArr vs) \<Rightarrow> None
      | None \<Rightarrow> None)"
  unfolding respHeaders_def skipped_iff
  by (simp add: map_of_foldl_keep_header split: option.splits hval.splits)

lemma content_type_kept: "toLowerCase ''content-type'' \<notin> set skip"
  by (simp add: skip_def toLowerCase_def lower_char_def)

lemma clean_inv_step:
  assumes "clean_inv s" "step cfg te s = Some s'"
  shows "clean_inv s'"
proof -
  from step_SomeD[OF assms(2)]
  have s': "s' = dispatch cfg (snd te) (s\<lparr> clock := fst te \<rparr>)" by auto
  show ?thesis
  proof (cases "snd te")
    case (WsMessage data)
    with assms(1) show ?thesis unfolding s'
      by (cases data) (auto simp: clean_inv_def handler_defs)
  next
    case (LocalEnd h code hs data)
    with assms(1) show ?thesis unfolding s'
      using respHeaders_clean[of _ hs]
      by (auto simp: clean_inv_def handler_defs headers_of_def)
  next
    case (LocalError h)
    with assms(1) content_type_kept show ?thesis unfolding s'
      by (auto simp: clean_inv_def handler_defs headers_of_def error_frame_def)
  next
    case (LocalTimeout h)
    with assms(1) content_type_kept show ?thesis unfolding s'
      by (auto simp: clean_inv_def handler_defs headers_of_def error_frame_def Let_def)
  qed (use assms(1) in \<open>auto simp: s' clean_inv_def handler_defs headers_of_def Let_def split: option.splits\<close>)
qed

lemma clean_inv_run: "run cfg es = Some s \<Longrightarrow> clean_inv s"
  by (rule run_invariant[where P = clean_inv, OF _ clean_inv_step])
     (auto simp: clean_inv_def connect_def boot_def)

text \<open>
  Claim C5. No response frame the client ever sends (built from a local response or
  synthesized) has a header whose name equals, up to case, one of \<open>content-length\<close>,
  \<open>transfer-encoding\<close>, \<open>connection\<close>, \<open>keep-alive\<close>, \<open>etag\<close>, \<open>x-powered-by\<close>. The headers
  of the frame built from a local response are \<open>respHeaders\<close> of the response's headers:
  every header with a string value and another name is kept with its value, and nothing
  else is.
\<close>

theorem response_headers_stripped:
  assumes "run cfg es = Some s" and "distinct (map fst hs)"
  shows "(\<forall>e\<in>set (sent s). \<forall>kv\<in>set (headers_of (snd (snd e))). \<forall>n\<in>set skip. \<not> ci_equal (fst kv) n)
       \<and> (\<forall>k. map_of (respHeaders hs) k =
             (case map_of hs k of
                Some (HStr v) \<Rightarrow> if (\<exists>n\<in>set skip. ci_equal k n) then None else Some v
              | Some (HNum n) \<Rightarrow> None
              | Some (HArr vs) \<Rightarrow> None
              | None \<Rightarrow> None))
       \<and> (readyState s = OPEN \<longrightarrow>
            sent (dispatch cfg (LocalEnd h code hs data) s) =
              sent s @ [(clock s, ws s, Response (rid (reqs s ! h)) code (respHeaders hs) data)])"
proof -
  from clean_inv_run[OF assms(1)]
  have "\<forall>e\<in>set (sent s). \<forall>kv\<in>set (headers_of (snd (snd e))). \<forall>n\<in>set skip. \<not> ci_equal (fst kv) n"
    using skipped_iff by (auto simp: clean_inv_def)
  moreover have "readyState s = OPEN \<longrightarrow>
            sent (dispatch cfg (LocalEnd h code hs data) s) =
              sent s @ [(clock s, ws s, Response (rid (reqs s ! h)) code (respHeaders hs) data)]"
    by (simp add: on_local_end_def ws_send_def emitted_def)
  ultimately show ?thesis using map_of_respHeaders[OF assms(2)] by blast
qed

theorem response_headers_stripped_witness:
  "distinct (map fst [(''content-type'', HStr ''application/json''), (''Content-Length'', HStr ''17''),
       (''etag'', HStr ''W/x''), (''set-cookie'', HArr [''a=1'']), (''x-request-id'', HStr ''42'')])
   \<and> map_of (respHeaders [(''content-type'', HStr ''application/json''), (''Content-Length'', HStr ''17''),
       (''etag'', HStr ''W/x''), (''set-cookie'', HArr [''a=1'']), (''x-request-id'', HStr ''42'')])
       ''Content-Length'' = None
   \<and> map_of (respHeaders [(''content-type'', HStr ''application/json''), (''Content-Length'', HStr ''17''),
       (''etag'', HStr ''W/x''), (''set-cookie'', HArr [''a=1'']), (''x-request-id'', HStr ''42'')])
       ''x-request-id'' = Some ''42''"
proof -
  let ?hs = "[(''content-type'', HStr ''application/json''), (''Content-Length'', HStr ''17''),
       (''etag'', HStr ''W/x''), (''set-cookie'', HArr [''a=1'']), (''x-request-id'', HStr ''42'')]"
  let ?cfg = "\<lparr> API_KEY = ''kp_live_1'', LOCAL_PORT = HNum 8900 \<rparr>"
  have r: "run ?cfg [] = Some (connect boot)" by (simp add: run_Nil)
  have d: "distinct (map fst ?hs)" by simp
  have "toLowerCase ''Content-Length'' = ''content-length''"
    by (simp add: toLowerCase_def lower_char_def)
  then have a: "(\<exists>n\<in>set skip. ci_equal ''Content-Length'' n)"
    unfolding skipped_iff by (simp add: skip_def)
  have "toLowerCase ''x-request-id'' = ''x-request-id''"
    by (simp add: toLowerCase_def lower_char_def)
  then have b: "\<not> (\<exists>n\<in>set skip. ci_equal ''x-request-id'' n)"
    unfolding skipped_iff by (simp add: skip_def)
  from response_headers_stripped[OF r d, of 0 200 "''ok''"]
  have "\<forall>k. map_of (respHeaders ?hs) k =
             (case map_of ?hs k of
                Some (HStr v) \<Rightarrow> if (\<exists>n\<in>set skip. ci_equal k n) then None else Some v
              | Some (HNum n) \<Rightarrow> None
              | Some (HArr vs) \<Rightarrow> None
              | None \<Rightarrow> None)" by blast
  then have "map_of (respHeaders ?hs) ''Content-Length'' = None"
    and "map_of (respHeaders ?hs) ''x-request-id'' = Some ''42''"
    using a b by simp_all
  with d show ?thesis by blast
qed

subsection \<open>The heartbeat\<close>

lemma hb_inv_OPEN_I:
  "readyState s = OPEN \<Longrightarrow> timeouts s = [] \<Longrightarrow> beating cfg s h t0 n \<Longrightarrow> hb_inv cfg s"
  unfolding hb_inv_def by auto

lemma hb_inv_open:
  assumes "hb_inv cfg s" "enabled (t, WsOpen) s"
  shows "hb_inv cfg (dispatch cfg WsOpen (s\<lparr> clock := t \<rparr>))"
proof -
  from assms have c: "readyState s = CONNECTING" and i: "intervals s = []" and to: "timeouts s = []"
    by (auto simp: enabled_def hb_inv_def)
  define s' where "s' = dispatch cfg WsOpen (s\<lparr> clock := t \<rparr>)"
  have "intervals s' = [(handles s, t + 25000 * Suc 0)]"
    and "pingInterval s' = Some (handles s)"
    and "clock s' = t"
    and "(t, ws s', Auth (API_KEY cfg)) \<in> set (sent s')"
    and o: "readyState s' = OPEN"
    and z: "timeouts s' = []"
    using i to by (simp_all add: s'_def handler_defs Let_def)
  then have "beating cfg s' (handles s) t 0" by (simp add: beating_def)
  with o z show ?thesis unfolding s'_def[symmetric] by (rule hb_inv_OPEN_I)
qed

lemma hb_inv_ping:
  assumes "hb_inv cfg s" "enabled (t, PingDue h) s"
  shows "hb_inv cfg (dispatch cfg (PingDue h) (s\<lparr> clock := t \<rparr>))"
proof (cases "readyState s")
  case OPEN
  with assms(1) obtain h0 t0 n where b: "beating cfg s h0 t0 n" and to: "timeouts s = []"
    by (auto simp: hb_inv_def)
  then have i: "intervals s = [(h0, t0 + 25000 * Suc n)]" and p: "pingInterval s = Some h0"
    and a: "(t0, ws s, Auth (API_KEY cfg)) \<in> set (sent s)"
    and pings: "\<And>k. 1 \<le> k \<Longrightarrow> k \<le> n \<Longrightarrow> (t0 + 25000 * k, ws s, Ping) \<in> set (sent s)"
    by (auto simp: beating_def)
  from assms(2) i have h: "h = h0" and t: "t = t0 + 25000 * Suc n"
    by (auto simp: enabled_def)
  define s' where "s' = dispatch cfg (PingDue h) (s\<lparr> clock := t \<rparr>)"
  have 1: "intervals s' = [(h0, t0 + 25000 * Suc (Suc n))]"
    and 2: "pingInterval s' = Some h0" and 3: "clock s' = t" and 4: "readyState s' = OPEN"
    and 5: "sent s' = sent s @ [(t, ws s, Ping)]" and 6: "ws s' = ws s" and 7: "timeouts s' = []"
    using OPEN i p h t to by (simp_all add: s'_def handler_defs)
  have "(t0 + 25000 * k, ws s', Ping) \<in> set (sent s')" if "1 \<le> k" "k \<le> Suc n" for k
  proof (cases "k = Suc n")
    case True
    have "(t, ws s, Ping) \<in> set (sent s')" unfolding 5 by simp
    then show ?thesis unfolding 6 t True .
  next
    case False
    with that have "k \<le> n" by simp
    from pings[OF that(1) this] show ?thesis unfolding 5 6 by simp
  qed
  moreover have "(t0, ws s', Auth (API_KEY cfg)) \<in> set (sent s')" using a unfolding 5 6 by simp
  moreover have "t0 \<le> clock s'" and "clock s' \<le> t0 + 25000 * Suc (Suc n)" unfolding 3 t by simp_all
  ultimately have "beating cfg s' h0 t0 (Suc n)" using 1 2 unfolding beating_def by blast
  with 4 7 show ?thesis unfolding s'_def[symmetric] by (rule hb_inv_OPEN_I)
next
  case CLOSING
  with assms show ?thesis
    by (auto simp: hb_inv_def enabled_def handler_defs)
next
  case CONNECTING
  with assms show ?thesis by (auto simp: hb_inv_def enabled_def)
next
  case CLOSED
  with assms show ?thesis by (auto simp: hb_inv_def enabled_def)
qed

lemma hb_inv_quiet:
  assumes "hb_inv cfg s" "enabled (t, e) s"
    and "readyState s' = readyState s" "intervals s' = intervals s" "pingInterval s' = pingInterval s"
    and "timeouts s' = timeouts s" "ws s' = ws s" "clock s' = t" "set (sent s) \<subseteq> set (sent s')"
  shows "hb_inv cfg s'"
proof (cases "readyState s")
  case OPEN
  with assms(1) obtain h0 t0 n where b: "beating cfg s h0 t0 n" and to: "timeouts s = []"
    by (auto simp: hb_inv_def)
  from b have i: "intervals s = [(h0, t0 + 25000 * Suc n)]" and t0: "t0 \<le> clock s"
    by (auto simp: beating_def)
  from assms(2) i t0 have t: "t \<le> t0 + 25000 * Suc n" "t0 \<le> t"
    by (auto simp: enabled_def due_times_def)
  from b t assms(4-9) have "beating cfg s' h0 t0 n" unfolding beating_def by auto
  moreover have "readyState s' = OPEN" "timeouts s' = []" using OPEN to assms(3,6) by simp_all
  ultimately show ?thesis using hb_inv_OPEN_I by blast
qed (use assms in \<open>auto simp: hb_inv_def\<close>)

lemma hb_inv_step:
  assumes "hb_inv cfg s" "step cfg te s = Some s'"
  shows "hb_inv cfg s'"
proof -
  obtain t e where te: "te = (t, e)" by (cases te)
  from step_SomeD[OF assms(2)] have en: "enabled (t, e) s"
    and s': "s' = dispatch cfg e (s\<lparr> clock := t \<rparr>)" by (auto simp: te)
  show ?thesis
  proof (cases e)
    case WsOpen
    from hb_inv_open[OF assms(1)] en show ?thesis unfolding s' WsOpen by blast
  next
    case (WsMessage data)
    show ?thesis
      by (rule hb_inv_quiet[OF assms(1) en]) (cases data; auto simp: s' WsMessage handler_defs)+
  next
    case WsClosing
    with assms(1) en show ?thesis unfolding s'
      by (auto simp: hb_inv_def enabled_def beating_def)
  next
    case WsClose
    with assms(1) en show ?thesis unfolding s'
      by (cases "readyState s")
         (auto simp: hb_inv_def enabled_def beating_def handler_defs Let_def split: option.splits)
  next
    case ConnectDue
    from en have "t \<in> set (timeouts s)" by (simp add: enabled_def ConnectDue)
    moreover from assms(1) have "length (timeouts s) \<le> 1" by (simp add: hb_inv_def)
    ultimately have "remove1 t (timeouts s) = []"
      by (cases "timeouts s") auto
    with assms(1) en ConnectDue show ?thesis unfolding s'
      by (cases "readyState s") (auto simp: hb_inv_def enabled_def handler_defs)
  next
    case (PingDue h)
    from hb_inv_ping[OF assms(1)] en show ?thesis unfolding s' PingDue by blast
  next
    case (LocalEnd h code hs data)
    show ?thesis
      by (rule hb_inv_quiet[OF assms(1) en]) (auto simp: s' LocalEnd handler_defs)
  next
    case (LocalError h)
    show ?thesis
      by (rule hb_inv_quiet[OF assms(1) en]) (auto simp: s' LocalError handler_defs)
  next
    case (LocalTimeout h)
    show ?thesis
      by (rule hb_inv_quiet[OF assms(1) en]) (auto simp: s' LocalTimeout handler_defs Let_def)
  qed
qed

lemma hb_inv_run: "run cfg es = Some s \<Longrightarrow> hb_inv cfg s"
  by (rule run_invariant[where P = "hb_inv cfg", OF _ hb_inv_step])
     (auto simp: hb_inv_def connect_def boot_def)

lemma frames_on_same:
  "sent s' = sent s \<Longrightarrow> frames_on k s' = frames_on k s"
  by (simp add: frames_on_def)

lemma frames_on_other:
  "sent s' = sent s @ [(t, j, f)] \<Longrightarrow> j \<noteq> k \<Longrightarrow> frames_on k s' = frames_on k s"
  by (simp add: frames_on_def)

lemma retired_step:
  assumes "retired k s" "step cfg te s = Some s'"
  shows "retired k s' \<and> frames_on k s' = frames_on k s"
proof -
  obtain t e where te: "te = (t, e)" by (cases te)
  from step_SomeD[OF assms(2)] have en: "enabled (t, e) s"
    and s': "s' = dispatch cfg e (s\<lparr> clock := t \<rparr>)" by (auto simp: te)
  show ?thesis
  proof (cases e)
    case (WsMessage data)
    with assms(1) en show ?thesis unfolding s'
      by (cases data) (auto simp: retired_def enabled_def handler_defs frames_on_def)
  qed (use assms(1) en in \<open>auto simp: s' retired_def enabled_def handler_defs frames_on_def Let_def
         split: option.splits\<close>)
qed

lemma retired_exec:
  "exec cfg es s = Some s' \<Longrightarrow> retired k s \<Longrightarrow> retired k s' \<and> frames_on k s' = frames_on k s"
proof (induction es arbitrary: s)
  case Nil
  then show ?case by simp
next
  case (Cons te es)
  from Cons.prems(1) obtain s1 where st: "step cfg te s = Some s1" and ex: "exec cfg es s1 = Some s'"
    by (auto split: option.splits)
  from retired_step[OF Cons.prems(2) st] Cons.IH[OF ex] show ?case by simp
qed

lemma close_retires:
  assumes "step cfg (t, WsClose) s = Some s1"
  shows "retired (ws s) s1 \<and> frames_on (ws s) s1 = frames_on (ws s) s"
  using step_SomeD[OF assms]
  by (auto simp: retired_def handler_defs frames_on_def Let_def split: option.splits)

text \<open>
  Claim C6. Timers are taken to fire exactly when due. While the socket is open, a
  \<open>ping\<close> frame has been sent on it at every multiple of 25000 ms since the \<open>open\<close> event
  (the time of the socket's \<open>auth\<close> frame) that has passed, so no 25 seconds go by without
  a frame. The \<open>close\<close> callback clears the interval, and after a \<open>close\<close> event no frame at
  all, and so no ping, is ever sent on that socket again, whatever happens later.
\<close>

theorem heartbeat:
  assumes "run cfg es = Some s"
  shows "(readyState s = OPEN \<longrightarrow>
            (\<exists>t0. (t0, ws s, Auth (API_KEY cfg)) \<in> set (sent s) \<and> t0 \<le> clock s
               \<and> (\<forall>k\<ge>1. t0 + 25000 * k < clock s \<longrightarrow> (t0 + 25000 * k, ws s, Ping) \<in> set (sent s))))
       \<and> (\<forall>t s1. step cfg (t, WsClose) s = Some s1 \<longrightarrow> intervals s1 = [])
       \<and> (\<forall>t es' s'. exec cfg ((t, WsClose) # es') s = Some s' \<longrightarrow>
            frames_on (ws s) s' = frames_on (ws s) s)"
proof -
  have inv: "hb_inv cfg s" using assms by (rule hb_inv_run)
  have a: "\<exists>t0. (t0, ws s, Auth (API_KEY cfg)) \<in> set (sent s) \<and> t0 \<le> clock s
               \<and> (\<forall>k\<ge>1. t0 + 25000 * k < clock s \<longrightarrow> (t0 + 25000 * k, ws s, Ping) \<in> set (sent s))"
    if "readyState s = OPEN"
  proof -
    from inv that obtain h t0 n where b: "beating cfg s h t0 n" by (auto simp: hb_inv_def)
    have "(t0 + 25000 * k, ws s, Ping) \<in> set (sent s)" if "1 \<le> k" "t0 + 25000 * k < clock s" for k
    proof -
      from b have "clock s \<le> t0 + 25000 * Suc n" by (simp add: beating_def)
      with that(2) have "25000 * k < 25000 * Suc n" by simp
      then have "k \<le> n" by simp
      with b that(1) show ?thesis by (simp add: beating_def)
    qed
    with b show ?thesis unfolding beating_def by blast
  qed
  have b: "intervals s1 = []" if "step cfg (t, WsClose) s = Some s1" for t s1
  proof -
    from assms that have "run cfg (es @ [(t, WsClose)]) = Some s1" by (simp add: run_append)
    then have "hb_inv cfg s1" by (rule hb_inv_run)
    moreover have "readyState s1 = CLOSED"
      using step_SomeD[OF that] by (simp add: handler_defs Let_def split: option.splits)
    ultimately show ?thesis by (simp add: hb_inv_def)
  qed
  have c: "frames_on (ws s) s' = frames_on (ws s) s" if "exec cfg ((t, WsClose) # es') s = Some s'"
    for t es' s'
  proof -
    from that obtain s1 where st: "step cfg (t, WsClose) s = Some s1"
      and ex: "exec cfg es' s1 = Some s'" by (auto split: option.splits)
    from close_retires[OF st] retired_exec[OF ex, of "ws s"] show ?thesis by simp
  qed
  from a b c show ?thesis by blast
qed

theorem heartbeat_witness:
  "(case run \<lparr> API_KEY = ''kp_live_1'', LOCAL_PORT = HNum 8900 \<rparr>
           [(10, WsOpen), (25010, PingDue 0), (50010, PingDue 0), (60000, WsMessage (Text ''x''))] of
      None \<Rightarrow> False
    | Some s \<Rightarrow> readyState s = OPEN \<and> clock s = 60000 \<and> ws s = 1
        \<and> (\<exists>t0. (t0, 1, Auth ''kp_live_1'') \<in> set (sent s)
              \<and> (t0 + 25000, 1, Ping) \<in> set (sent s) \<and> (t0 + 50000, 1, Ping) \<in> set (sent s))
        \<and> (case exec \<lparr> API_KEY = ''kp_live_1'', LOCAL_PORT = HNum 8900 \<rparr>
                  [(60001, WsClose), (61001, ConnectDue), (61002, WsOpen), (86002, PingDue 1)] s of
              None \<Rightarrow> False
            | Some s' \<Rightarrow> frames_on 1 s' = frames_on 1 s))"
proof -
  let ?cfg = "\<lparr> API_KEY = ''kp_live_1'', LOCAL_PORT = HNum 8900 \<rparr>"
  let ?es = "[(10, WsOpen), (25010, PingDue 0), (50010, PingDue 0), (60000, WsMessage (Text ''x''))]"
  let ?es' = "[(61001, ConnectDue), (61002, WsOpen), (86002, PingDue 1)]"
  let ?s = "\<lparr> clock = 60000, exited = False, ws = 1, readyState = OPEN,
             sent = [(10, 1, Auth ''kp_live_1''), (25010, 1, Ping), (50010, 1, Ping)],
             intervals = [(0, 75010)], pingInterval = Some 0, timeouts = [], handles = 1,
             reconnectDelay = 1000, retries = [], reqs = [] \<rparr>"
  have r: "run ?cfg ?es = Some ?s" by (simp add: trace_simps)
  have "exec ?cfg ((60001, WsClose) # ?es') ?s \<noteq> None" by (simp add: trace_simps)
  then obtain s' where x: "exec ?cfg ((60001, WsClose) # ?es') ?s = Some s'" by blast
  note h = heartbeat[OF r]
  from h obtain t0 where t0: "(t0, ws ?s, Auth (API_KEY ?cfg)) \<in> set (sent ?s)"
    and p: "\<forall>k\<ge>1. t0 + 25000 * k < clock ?s \<longrightarrow> (t0 + 25000 * k, ws ?s, Ping) \<in> set (sent ?s)"
    by auto
  from t0 have t: "t0 = 10" by simp
  from p[rule_format, of 1] p[rule_format, of 2]
  have "(t0 + 25000, 1, Ping) \<in> set (sent ?s)" "(t0 + 50000, 1, Ping) \<in> set (sent ?s)"
    unfolding t by simp_all
  moreover from h x have "frames_on (ws ?s) s' = frames_on (ws ?s) ?s" by blast
  then have "frames_on 1 s' = frames_on 1 ?s" by simp
  moreover from t0 have "(t0, 1, Auth ''kp_live_1'') \<in> set (sent ?s)" by simp
  ultimately show ?thesis unfolding r using x by auto
qed

subsection \<open>Responses to a request\<close>
















text \<open>
  Claim C1 (at most one response frame is ever sent for a request's \<open>id\<close>) does not hold
  of the code. Each callback sends at most one frame (\<open>callback_sends_at_most_one\<close>), but
  the three callbacks of a request do not exclude one another. The timeout callback calls
  \<open>req.destroy()\<close> and sends the 504 frame; Node.js then emits \<open>error\<close> (a socket hang-up)
  on a request that was destroyed before its response arrived, and the \<open>error\<close> callback
  sends a 502 frame with the same \<open>id\<close>. Nothing in \<open>handleRequest\<close> records that an \<open>id\<close>
  has been answered. On an open socket, a request whose local call times out is answered
  twice: the run below is the request \<open>r1\<close> received at 20 ms, its timeout callback
  25 seconds later, and the \<open>error\<close> callback that follows.
\<close>

theorem timeout_answers_twice:
  "map_option (responses_to (Some (JStr ''r1'')))
     (run \<lparr> API_KEY = ''kp_live_1'', LOCAL_PORT = HNum 8900 \<rparr>
        [(10, WsOpen), (20, WsMessage (Json (JObj [(''type'', JStr ''request''), (''id'', JStr ''r1'')]))),
         (25010, PingDue 0), (25020, LocalTimeout 0), (25021, LocalError 0)])
   = Some [Response (Some (JStr ''r1'')) 504 [(''content-type'', ''application/json'')]
             ''{\"error\":\"timeout\"}'',
           Response (Some (JStr ''r1'')) 502 [(''content-type'', ''application/json'')]
             ''{\"error\":\"local server unreachable\"}'']"
  by (simp add: trace_simps responses_to_def quote_def escape_char_def)

section \<open>The file mailbox\<close>

lemma json_file_inj [simp]: "json_file a = json_file b \<longleftrightarrow> a = b"
  by (simp add: json_file_def)


lemma poll_outbox_inbox: "inbox (snd (poll_outbox i mb)) = inbox mb"
  by (auto simp: poll_outbox_def Let_def split: option.splits content.splits)

lemma poll_outbox_not_completed:
  "\<not> completed i mb \<Longrightarrow> poll_outbox i mb = (Waiting, mb) \<or> poll_outbox i mb = (Gave_up, mb)"
  by (auto simp: poll_outbox_def completed_def split: option.splits content.splits)

lemma wait_reply_timeout:
  assumes "\<forall>e\<in>set (seen sched mb). fst e < deadline \<longrightarrow> \<not> completed i (snd e)"
    and "\<exists>e\<in>set (seen sched mb). deadline \<le> fst e"
  shows "\<exists>e\<in>set (seen sched mb). wait_reply i deadline sched mb = Some (fallback, snd e)"
  using assms
proof (induction sched arbitrary: mb)
  case Nil
  then show ?case by simp
next
  case (Cons slot sched)
  let ?mb1 = "snd slot mb"
  show ?case
  proof (cases "fst slot < deadline")
    case True
    with Cons.prems(1) have nc: "\<not> completed i ?mb1" by simp
    from poll_outbox_not_completed[OF nc] show ?thesis
    proof
      assume w: "poll_outbox i ?mb1 = (Waiting, ?mb1)"
      from Cons.prems True
      have "\<forall>e\<in>set (seen sched ?mb1). fst e < deadline \<longrightarrow> \<not> completed i (snd e)"
        and "\<exists>e\<in>set (seen sched ?mb1). deadline \<le> fst e" by auto
      from Cons.IH[OF this] w True show ?thesis by (auto simp: Let_def)
    next
      assume "poll_outbox i ?mb1 = (Gave_up, ?mb1)"
      with True show ?thesis by (auto simp: Let_def)
    qed
  next
    case False
    then show ?thesis by (auto simp: Let_def)
  qed
qed

lemma seen_inbox:
  assumes "\<forall>slot\<in>set sched. \<forall>x. map_of (inbox (snd slot x)) f = map_of (inbox x) f"
  shows "\<forall>e\<in>set (seen sched mb). map_of (inbox (snd e)) f = map_of (inbox mb) f"
  using assms by (induction sched arbitrary: mb) auto

lemma enqueue_inbox:
  "map_of (inbox (enqueue i sid m ts mb)) (json_file i) = Some (Json (entry i sid m ts))"
  by (simp add: enqueue_def map_of_assign)

text \<open>
  Claim C8. Take a request for which \<open>handleChat\<close> writes a pending entry: it passes the
  rate limiter, and its \<open>message\<close> is a string that is not empty and has at most 5000 UTF-16
  code units. The deadline is 25000 ms after the clock reading \<open>t1\<close> taken once the entry
  is written. If at every evaluation of the loop condition
  before the deadline the completed entry is absent or does not parse, and
  the clock reaches the deadline, then \<open>handleChat\<close> returns the fallback reply, and the
  mailbox it leaves is a state the other processes produced from the mailbox with the
  pending entry written: the forwarder has deleted nothing. In particular, when the
  other processes left the pending entry alone, it is still in the inbox.
\<close>

theorem forwarder_timeout:
  assumes "\<not> fst (rateLimit (req_ip req) (int t0) h)"
    and "req_body req = Some b" and "property ''message'' b = Some (JStr m)"
    and "m \<noteq> []" and "js_length m \<le> 5000"
    and "\<forall>e\<in>set (seen sched (enqueue i (sessionId req) m ts mb)).
           fst e < t1 + 25000 \<longrightarrow> \<not> completed i (snd e)"
    and "\<exists>e\<in>set (seen sched (enqueue i (sessionId req) m ts mb)). t1 + 25000 \<le> fst e"
  shows "\<exists>e\<in>set (seen sched (enqueue i (sessionId req) m ts mb)).
           handleChat req t0 t1 i ts sched (h, mb) =
             Some (fallback, snd (rateLimit (req_ip req) (int t0) h), snd e)
           \<and> ((\<forall>slot\<in>set sched. \<forall>x. map_of (inbox (snd slot x)) (json_file i)
                  = map_of (inbox x) (json_file i))
               \<longrightarrow> map_of (inbox (snd e)) (json_file i)
                     = Some (Json (entry i (sessionId req) m ts)))"
proof -
  let ?mb1 = "enqueue i (sessionId req) m ts mb"
  from assms(3) have tb: "truthy (Some b)" and nn: "b \<noteq> JNull" by (cases b; simp)+
  from nn assms(2,3) have msg: "opt_property ''message'' (req_body req) = Some (JStr m)"
    by (cases b) (simp_all add: opt_property_def)
  from wait_reply_timeout[OF assms(6,7)] obtain e where
    e: "e \<in> set (seen sched ?mb1)" and w: "wait_reply i (t1 + 25000) sched ?mb1 = Some (fallback, snd e)"
    by blast
  obtain limited h' where rl: "rateLimit (req_ip req) (int t0) h = (limited, h')"
    by (cases "rateLimit (req_ip req) (int t0) h")
  with assms(1) have nl: "\<not> limited" by simp
  have "handleChat req t0 t1 i ts sched (h, mb) = Some (fallback, h', snd e)"
    using rl nl tb msg assms(2,4,5) w by (simp add: handleChat_def)
  moreover have "map_of (inbox (snd e)) (json_file i) = Some (Json (entry i (sessionId req) m ts))"
    if "\<forall>slot\<in>set sched. \<forall>x. map_of (inbox (snd slot x)) (json_file i) = map_of (inbox x) (json_file i)"
    using seen_inbox[OF that, of ?mb1] e by (simp add: enqueue_inbox)
  ultimately show ?thesis using e rl by auto
qed

lemma seen_idle:
  "seen (map (\<lambda>k. (f k, \<lambda>x. x)) ks) mb = map (\<lambda>k. (f k, mb)) ks"
  by (induction ks) auto

theorem forwarder_timeout_witness:
  "\<not> fst (rateLimit ''10.0.0.7'' (int 1000) Map.empty)
   \<and> \<not> completed ''m1abc''
         (enqueue ''m1abc'' (JStr ''default'') ''hi'' ''2026-02-13T10:00:00.000Z''
            \<lparr> inbox = [], outbox = [] \<rparr>)
   \<and> (case handleChat \<lparr> req_ip = ''10.0.0.7'', req_body = Some (JObj [(''message'', JStr ''hi'')]),
                         session_header = None \<rparr>
             1000 1002 ''m1abc'' ''2026-02-13T10:00:00.000Z''
             (map (\<lambda>k. (1002 + 500 * k, \<lambda>x. x)) [0..<51])
             (Map.empty, \<lparr> inbox = [], outbox = [] \<rparr>) of
         None \<Rightarrow> False
       | Some out \<Rightarrow> fst out = fallback
           \<and> map_of (inbox (snd (snd out))) ''m1abc.json''
               = Some (Json (entry ''m1abc'' (JStr ''default'') ''hi'' ''2026-02-13T10:00:00.000Z'')))"
proof -
  let ?req = "\<lparr> req_ip = ''10.0.0.7'', req_body = Some (JObj [(''message'', JStr ''hi'')]),
                session_header = None \<rparr>"
  let ?sched = "map (\<lambda>k. (1002 + 500 * k, \<lambda>x::mailbox. x)) [0..<51]"
  let ?mb = "\<lparr> inbox = [], outbox = [] \<rparr>"
  let ?ts = "''2026-02-13T10:00:00.000Z''"
  let ?mb1 = "enqueue ''m1abc'' (JStr ''default'') ''hi'' ?ts ?mb"
  have sid: "sessionId ?req = JStr ''default''" by (simp add: sessionId_def opt_property_def)
  have rl: "\<not> fst (rateLimit (req_ip ?req) (int 1000) Map.empty)"
    by (simp add: rateLimit_def window_def Let_def)
  have nc: "\<not> completed ''m1abc'' ?mb1" by (simp add: completed_def enqueue_def)
  have a: "\<forall>e\<in>set (seen ?sched (enqueue ''m1abc'' (sessionId ?req) ''hi'' ?ts ?mb)).
             fst e < 1002 + 25000 \<longrightarrow> \<not> completed ''m1abc'' (snd e)"
    unfolding sid seen_idle using nc by auto
  have "(1002 + 500 * 50, ?mb1) \<in> set (map (\<lambda>k. (1002 + 500 * k, ?mb1)) [0..<51])"
    unfolding set_map by (rule image_eqI[where x = 50]) simp_all
  then have b: "\<exists>e\<in>set (seen ?sched (enqueue ''m1abc'' (sessionId ?req) ''hi'' ?ts ?mb)).
             1002 + 25000 \<le> fst e"
    unfolding sid seen_idle by force
  have idle: "\<forall>slot\<in>set ?sched. \<forall>x. map_of (inbox (snd slot x)) (json_file ''m1abc'')
                = map_of (inbox x) (json_file ''m1abc'')" by auto
  have jf: "json_file ''m1abc'' = ''m1abc.json''" by (simp add: json_file_def)
  from forwarder_timeout[of ?req 1000 Map.empty "JObj [(''message'', JStr ''hi'')]" "''hi''"
         ?sched "''m1abc''" ?ts ?mb 1002, OF rl _ _ _ _ a b] idle
  obtain e where "handleChat ?req 1000 1002 ''m1abc'' ?ts ?sched (Map.empty, ?mb) =
             Some (fallback, snd (rateLimit (req_ip ?req) (int 1000) Map.empty), snd e)"
    and "map_of (inbox (snd e)) (json_file ''m1abc'')
           = Some (Json (entry ''m1abc'' (sessionId ?req) ''hi'' ?ts))"
    by (auto simp: js_length_def units_def)
  then show ?thesis using rl nc unfolding sid jf by (simp add: js_length_def units_def)
qed

text \<open>
  The limit of 5000 counts UTF-16 code units, not bytes: a message of \<open>n\<close> letters
  \<open>e\<close> with an acute accent, two bytes each, is \<open>n\<close> units long, and up to 5000 of them are
  written to the inbox and waited for.
\<close>

lemma js_length_two_byte_letters:
  "js_length (concat (replicate n [CHR 0xC3, CHR 0xA9])) = n"
  by (induction n) (simp_all add: js_length_def units_def)

lemma two_byte_letters_enqueued:
  assumes "0 < n" "n \<le> 5000"
  shows "handleChat \<lparr> req_ip = a,
             req_body = Some (JObj [(''message'', JStr (concat (replicate n [CHR 0xC3, CHR 0xA9])))]),
             session_header = None \<rparr> t0 t1 i ts [] (Map.empty, mb) = None"
proof -
  from assms(1) obtain k where "n = Suc k" by (cases n) auto
  then have ne: "concat (replicate n [CHR 0xC3, CHR 0xA9]) \<noteq> []" by simp
  have rl: "\<not> fst (rateLimit a (int t0) Map.empty)"
    by (simp add: rateLimit_def window_def Let_def)
  obtain limited h' where r: "rateLimit a (int t0) Map.empty = (limited, h')"
    by (cases "rateLimit a (int t0) Map.empty")
  with rl have "\<not> limited" by simp
  with r ne assms(2) show ?thesis
    by (simp add: handleChat_def opt_property_def js_length_two_byte_letters)
qed

subsection \<open>Correlation by identifier\<close>














end
